theory Spec2Isabelle
  imports Complex_Main "HOL-Library.Word"
begin

unbundle bit_operations_syntax

section \<open>Data model\<close>

text \<open>
  A byte span \<open>(data, len)\<close> is a list of bytes whose length is \<open>len\<close>; \<open>len\<close> is a
  \<open>cudf::size_type\<close> (a signed 32-bit integer), so the spans the code can receive are
  the lists shorter than \<open>2 ^ 31\<close>.  Hash values and seeds are 32-bit words, on which
  \<open>+\<close> and \<open>*\<close> wrap around as \<open>uint32_t\<close> does.
\<close>

type_synonym byte = "8 word"
type_synonym hash_value_type = "32 word"

text \<open>
  The key types of the hash functors.  Integers and decimals carry their two's-complement
  bit pattern, floating-point keys their IEEE 754 bit pattern, a string view its bytes;
  \<open>list_view\<close> and \<open>struct_view\<close> are empty placeholder classes.
\<close>

datatype key =
    Bool bool
  | Int8 "8 word" | UInt8 "8 word"
  | Int16 "16 word" | UInt16 "16 word"
  | Int32 "32 word" | UInt32 "32 word"
  | Int64 "64 word" | UInt64 "64 word"
  | Float32 "32 word" | Float64 "64 word"
  | Decimal32 "32 word" | Decimal64 "64 word" | Decimal128 "128 word"
  | String_view "byte list"
  | List_view | Struct_view

datatype fault = Unsupported_Key_Type

section \<open>Shared constants of \<open>compute_bytes\<close>\<close>

definition BLOCK_SIZE :: nat where "BLOCK_SIZE = 4"
definition c1 :: "32 word" where "c1 = 0xcc9e2d51"
definition c2 :: "32 word" where "c2 = 0x1b873593"
definition c3 :: "32 word" where "c3 = 0xe6546b64"
definition rot_c1 :: nat where "rot_c1 = 15"
definition rot_c2 :: nat where "rot_c2 = 13"

section \<open>Object representation and floating-point tests\<close>

text \<open>
  \<open>reinterpret_cast<std::byte const*>(&key)\<close> with \<open>sizeof(T)\<close>: the bytes of the
  object, least significant first (the device is little-endian, as the decimal code's
  own comments say).
\<close>

definition object_bytes :: "'a::len word \<Rightarrow> byte list" where
  "object_bytes w = map (\<lambda>i. ucast (drop_bit (8 * i) w)) [0..<LENGTH('a) div 8]"

text \<open>
  \<open>std::isnan(key)\<close>, \<open>key == T{0.0}\<close> and \<open>std::numeric_limits<T>::quiet_NaN()\<close>
  on IEEE 754 bit patterns: a NaN has all exponent bits set and a mantissa that is not
  zero; exactly \<open>+0.0\<close> and \<open>-0.0\<close> compare equal to zero; the quiet NaN has a clear
  sign, all exponent bits and the top mantissa bit set.
\<close>

definition isnan32 :: "32 word \<Rightarrow> bool" where
  "isnan32 w = (drop_bit 23 w AND 0xFF = 0xFF \<and> w AND 0x7FFFFF \<noteq> 0)"

definition isnan64 :: "64 word \<Rightarrow> bool" where
  "isnan64 w = (drop_bit 52 w AND 0x7FF = 0x7FF \<and> w AND 0xFFFFFFFFFFFFF \<noteq> 0)"

definition eq_zero32 :: "32 word \<Rightarrow> bool" where
  "eq_zero32 w = (w = 0 \<or> w = 0x80000000)"

definition eq_zero64 :: "64 word \<Rightarrow> bool" where
  "eq_zero64 w = (w = 0 \<or> w = 0x8000000000000000)"

definition quiet_NaN32 :: "32 word" where "quiet_NaN32 = 0x7FC00000"
definition quiet_NaN64 :: "64 word" where "quiet_NaN64 = 0x7FF8000000000000"

text \<open>\<open>cudf::detail::normalize_nans_and_zeros\<close>, at the two floating-point widths.\<close>

definition normalize_nans_and_zeros32 :: "32 word \<Rightarrow> 32 word" where
  "normalize_nans_and_zeros32 key =
     (if isnan32 key then quiet_NaN32 else if eq_zero32 key then 0 else key)"

definition normalize_nans_and_zeros64 :: "64 word \<Rightarrow> 64 word" where
  "normalize_nans_and_zeros64 key =
     (if isnan64 key then quiet_NaN64 else if eq_zero64 key then 0 else key)"

text \<open>
  Modelled from the spec: the macro \<open>cudf_assert\<close> (cudf/detail/utilities/assert.cuh) is
  not among the sources.  The spec describes it as a crash-on-violation check whose
  failure is unconditionally fatal: a false condition raises the Unsupported-Key-Type
  fault and nothing after it runs.
\<close>

definition cudf_assert :: "bool \<Rightarrow> fault + unit" where
  "cudf_assert e = (if e then Inr () else Inl Unsupported_Key_Type)"

section \<open>\<open>MurmurHash3_32\<close>: the generic hash\<close>

text \<open>\<open>__funnelshift_l(x, x, r)\<close>, as the source's comment spells it out:
  \<open>(x << r) | (x >> (32 - r))\<close>.\<close>

definition Murmur_rotl32 :: "32 word \<Rightarrow> nat \<Rightarrow> 32 word" where
  "Murmur_rotl32 x r = push_bit r x OR drop_bit (32 - r) x"

definition Murmur_fmix32 :: "32 word \<Rightarrow> 32 word" where
  "Murmur_fmix32 h0 =
     (let h = h0 XOR drop_bit 16 h0;
          h = h * 0x85ebca6b;
          h = h XOR drop_bit 13 h;
          h = h * 0xc2b2ae35;
          h = h XOR drop_bit 16 h
      in h)"

definition Murmur_getblock32 :: "byte list \<Rightarrow> nat \<Rightarrow> 32 word" where
  "Murmur_getblock32 data offset =
     ucast (data ! offset) OR push_bit 8 (ucast (data ! (offset + 1)))
       OR push_bit 16 (ucast (data ! (offset + 2)))
       OR push_bit 24 (ucast (data ! (offset + 3)))"

text \<open>The loop \<open>for (i = 0; i < nblocks; i++)\<close> over the four-byte chunks.\<close>

function Murmur_blocks :: "byte list \<Rightarrow> nat \<Rightarrow> nat \<Rightarrow> 32 word \<Rightarrow> 32 word" where
  "Murmur_blocks data nblocks i h1 =
     (if i < nblocks then
        (let k1 = Murmur_getblock32 data (i * BLOCK_SIZE);
             k1 = k1 * c1;
             k1 = Murmur_rotl32 k1 rot_c1;
             k1 = k1 * c2;
             h = h1 XOR k1;
             h = Murmur_rotl32 h rot_c2;
             h = h * 5 + c3
         in Murmur_blocks data nblocks (i + 1) h)
      else h1)"
  by pat_completeness auto
termination
  by (relation "measure (\<lambda>(data, nblocks, i, h1). nblocks - i)") auto

declare Murmur_blocks.simps [simp del]

text \<open>The \<open>switch (len % 4)\<close> with its fall-through from case 3 to case 2 to case 1.\<close>

definition Murmur_tail :: "byte list \<Rightarrow> nat \<Rightarrow> nat \<Rightarrow> 32 word \<Rightarrow> 32 word" where
  "Murmur_tail data len tail_offset h1 =
     (let r = len mod 4;
          k1 = 0;
          k1 = (if r = 3 then k1 XOR push_bit 16 (ucast (data ! (tail_offset + 2))) else k1);
          k1 = (if r = 3 \<or> r = 2 then k1 XOR push_bit 8 (ucast (data ! (tail_offset + 1))) else k1)
      in if r = 3 \<or> r = 2 \<or> r = 1 then
           (let k1 = k1 XOR ucast (data ! tail_offset);
                k1 = k1 * c1;
                k1 = Murmur_rotl32 k1 rot_c1;
                k1 = k1 * c2
            in h1 XOR k1)
         else h1)"

definition Murmur_compute_bytes :: "32 word \<Rightarrow> byte list \<Rightarrow> hash_value_type" where
  "Murmur_compute_bytes m_seed data =
     (let len = length data;
          nblocks = len div BLOCK_SIZE;
          tail_offset = nblocks * BLOCK_SIZE;
          h1 = m_seed;
          h1 = Murmur_blocks data nblocks 0 h1;
          h1 = Murmur_tail data len tail_offset h1;
          h1 = h1 XOR of_nat len;
          h1 = Murmur_fmix32 h1
      in h1)"

text \<open>\<open>compute\<close>: the hash of the object's own bytes.\<close>

definition Murmur_compute :: "32 word \<Rightarrow> 'a::len word \<Rightarrow> hash_value_type" where
  "Murmur_compute m_seed key = Murmur_compute_bytes m_seed (object_bytes key)"

definition Murmur_compute_floating_point32 :: "32 word \<Rightarrow> 32 word \<Rightarrow> hash_value_type" where
  "Murmur_compute_floating_point32 m_seed key =
     (if eq_zero32 key then Murmur_compute m_seed (0 :: 32 word)
      else if isnan32 key then (let nan = quiet_NaN32 in Murmur_compute m_seed nan)
      else Murmur_compute m_seed key)"

definition Murmur_compute_floating_point64 :: "32 word \<Rightarrow> 64 word \<Rightarrow> hash_value_type" where
  "Murmur_compute_floating_point64 m_seed key =
     (if eq_zero64 key then Murmur_compute m_seed (0 :: 64 word)
      else if isnan64 key then (let nan = quiet_NaN64 in Murmur_compute m_seed nan)
      else Murmur_compute m_seed key)"

text \<open>\<open>operator()\<close>: the primary template calls \<open>compute\<close>; the specialisations follow
  in the order of the source.\<close>

fun MurmurHash3_32 :: "32 word \<Rightarrow> key \<Rightarrow> fault + hash_value_type" where
  "MurmurHash3_32 m_seed (Bool key) = Inr (Murmur_compute m_seed (of_bool key :: 8 word))"
| "MurmurHash3_32 m_seed (Float32 key) = Inr (Murmur_compute_floating_point32 m_seed key)"
| "MurmurHash3_32 m_seed (Float64 key) = Inr (Murmur_compute_floating_point64 m_seed key)"
| "MurmurHash3_32 m_seed (String_view key) = Inr (Murmur_compute_bytes m_seed key)"
| "MurmurHash3_32 m_seed (Decimal32 key) = Inr (Murmur_compute m_seed key)"
| "MurmurHash3_32 m_seed (Decimal64 key) = Inr (Murmur_compute m_seed key)"
| "MurmurHash3_32 m_seed (Decimal128 key) = Inr (Murmur_compute m_seed key)"
| "MurmurHash3_32 m_seed List_view =
     (case cudf_assert (False \<and> True) of Inl f \<Rightarrow> Inl f | Inr _ \<Rightarrow> Inr 0)"
| "MurmurHash3_32 m_seed Struct_view =
     (case cudf_assert (False \<and> True) of Inl f \<Rightarrow> Inl f | Inr _ \<Rightarrow> Inr 0)"
| "MurmurHash3_32 m_seed (Int8 key) = Inr (Murmur_compute m_seed key)"
| "MurmurHash3_32 m_seed (UInt8 key) = Inr (Murmur_compute m_seed key)"
| "MurmurHash3_32 m_seed (Int16 key) = Inr (Murmur_compute m_seed key)"
| "MurmurHash3_32 m_seed (UInt16 key) = Inr (Murmur_compute m_seed key)"
| "MurmurHash3_32 m_seed (Int32 key) = Inr (Murmur_compute m_seed key)"
| "MurmurHash3_32 m_seed (UInt32 key) = Inr (Murmur_compute m_seed key)"
| "MurmurHash3_32 m_seed (Int64 key) = Inr (Murmur_compute m_seed key)"
| "MurmurHash3_32 m_seed (UInt64 key) = Inr (Murmur_compute m_seed key)"

section \<open>\<open>SparkMurmurHash3_32\<close>: the reference-engine-compatible hash\<close>

definition Spark_rotl32 :: "32 word \<Rightarrow> nat \<Rightarrow> 32 word" where
  "Spark_rotl32 x r = push_bit r x OR drop_bit (32 - r) x"

definition Spark_fmix32 :: "32 word \<Rightarrow> 32 word" where
  "Spark_fmix32 h0 =
     (let h = h0 XOR drop_bit 16 h0;
          h = h * 0x85ebca6b;
          h = h XOR drop_bit 13 h;
          h = h * 0xc2b2ae35;
          h = h XOR drop_bit 16 h
      in h)"

definition Spark_getblock32 :: "byte list \<Rightarrow> nat \<Rightarrow> 32 word" where
  "Spark_getblock32 data offset =
     ucast (data ! offset) OR push_bit 8 (ucast (data ! (offset + 1)))
       OR push_bit 16 (ucast (data ! (offset + 2)))
       OR push_bit 24 (ucast (data ! (offset + 3)))"

function Spark_blocks :: "byte list \<Rightarrow> nat \<Rightarrow> nat \<Rightarrow> 32 word \<Rightarrow> 32 word" where
  "Spark_blocks data nblocks i h1 =
     (if i < nblocks then
        (let k1 = Spark_getblock32 data (i * BLOCK_SIZE);
             k1 = k1 * c1;
             k1 = Spark_rotl32 k1 rot_c1;
             k1 = k1 * c2;
             h = h1 XOR k1;
             h = Spark_rotl32 h rot_c2;
             h = h * 5 + c3
         in Spark_blocks data nblocks (i + 1) h)
      else h1)"
  by pat_completeness auto
termination
  by (relation "measure (\<lambda>(data, nblocks, i, h1). nblocks - i)") auto

declare Spark_blocks.simps [simp del]

text \<open>The loop \<open>for (i = nblocks * 4; i < len; i++)\<close> over the remaining bytes; the cast
  through \<open>int8_t\<close> to \<open>uint32_t\<close> is the signed cast \<open>scast\<close>.\<close>

function Spark_tail :: "byte list \<Rightarrow> nat \<Rightarrow> nat \<Rightarrow> 32 word \<Rightarrow> 32 word" where
  "Spark_tail data len i h1 =
     (if i < len then
        (let k1 = scast (data ! i);
             k1 = k1 * c1;
             k1 = Spark_rotl32 k1 rot_c1;
             k1 = k1 * c2;
             h = h1 XOR k1;
             h = Spark_rotl32 h rot_c2;
             h = h * 5 + c3
         in Spark_tail data len (i + 1) h)
      else h1)"
  by pat_completeness auto
termination
  by (relation "measure (\<lambda>(data, len, i, h1). len - i)") auto

declare Spark_tail.simps [simp del]

definition Spark_compute_bytes :: "32 word \<Rightarrow> byte list \<Rightarrow> hash_value_type" where
  "Spark_compute_bytes m_seed data =
     (let len = length data;
          nblocks = len div BLOCK_SIZE;
          h1 = m_seed;
          h1 = Spark_blocks data nblocks 0 h1;
          h1 = Spark_tail data len (nblocks * 4) h1;
          h1 = h1 XOR of_nat len;
          h1 = Spark_fmix32 h1
      in h1)"

definition Spark_compute :: "32 word \<Rightarrow> 'a::len word \<Rightarrow> hash_value_type" where
  "Spark_compute m_seed key = Spark_compute_bytes m_seed (object_bytes key)"

definition Spark_compute_floating_point32 :: "32 word \<Rightarrow> 32 word \<Rightarrow> hash_value_type" where
  "Spark_compute_floating_point32 m_seed key =
     (if isnan32 key then (let nan = quiet_NaN32 in Spark_compute m_seed nan)
      else Spark_compute m_seed key)"

definition Spark_compute_floating_point64 :: "32 word \<Rightarrow> 64 word \<Rightarrow> hash_value_type" where
  "Spark_compute_floating_point64 m_seed key =
     (if isnan64 key then (let nan = quiet_NaN64 in Spark_compute m_seed nan)
      else Spark_compute m_seed key)"

text \<open>
  \<open>thrust::find_if_not\<close> over a range, as the index of the element it stops at (the
  length of the range when every element satisfies the predicate).
\<close>

fun find_if_not :: "('a \<Rightarrow> bool) \<Rightarrow> 'a list \<Rightarrow> nat" where
  "find_if_not P [] = 0"
| "find_if_not P (x # xs) = (if P x then Suc (find_if_not P xs) else 0)"

text \<open>
  The byte span that the \<open>decimal128\<close> specialisation hands to \<open>compute_bytes\<close>.  The
  reverse iterator that has skipped \<open>k\<close> bytes from the most significant end has the base
  \<open>data + (key_size - k)\<close>, so \<open>thrust::distance(data, first_nonzero_byte)\<close> is
  \<open>key_size - k\<close>.
\<close>

definition Spark_decimal128_span :: "128 word \<Rightarrow> byte list" where
  "Spark_decimal128_span val =
     (let key_size = 16;
          data = object_bytes val;
          is_negative = (sint val < 0);
          zero_value = (if is_negative then 0xff else 0x00 :: byte);
          first_nonzero_byte = key_size - find_if_not (\<lambda>v. v = zero_value) (rev data);
          len = max 1 first_nonzero_byte;
          len = (if len < key_size \<and> (is_negative \<noteq> (data ! (len - 1) AND 0x80 \<noteq> 0))
                 then len + 1 else len)
      in rev (take len data))"

fun SparkMurmurHash3_32 :: "32 word \<Rightarrow> key \<Rightarrow> fault + hash_value_type" where
  "SparkMurmurHash3_32 m_seed (Bool key) = Inr (Spark_compute m_seed (of_bool key :: 32 word))"
| "SparkMurmurHash3_32 m_seed (Int8 key) = Inr (Spark_compute m_seed (scast key :: 32 word))"
| "SparkMurmurHash3_32 m_seed (UInt8 key) = Inr (Spark_compute m_seed (ucast key :: 32 word))"
| "SparkMurmurHash3_32 m_seed (Int16 key) = Inr (Spark_compute m_seed (scast key :: 32 word))"
| "SparkMurmurHash3_32 m_seed (UInt16 key) = Inr (Spark_compute m_seed (ucast key :: 32 word))"
| "SparkMurmurHash3_32 m_seed (Float32 key) = Inr (Spark_compute_floating_point32 m_seed key)"
| "SparkMurmurHash3_32 m_seed (Float64 key) = Inr (Spark_compute_floating_point64 m_seed key)"
| "SparkMurmurHash3_32 m_seed (String_view key) = Inr (Spark_compute_bytes m_seed key)"
| "SparkMurmurHash3_32 m_seed (Decimal32 key) = Inr (Spark_compute m_seed (scast key :: 64 word))"
| "SparkMurmurHash3_32 m_seed (Decimal64 key) = Inr (Spark_compute m_seed (scast key :: 64 word))"
| "SparkMurmurHash3_32 m_seed (Decimal128 key) =
     Inr (Spark_compute_bytes m_seed (Spark_decimal128_span key))"
| "SparkMurmurHash3_32 m_seed List_view =
     (case cudf_assert (False \<and> True) of Inl f \<Rightarrow> Inl f | Inr _ \<Rightarrow> Inr 0)"
| "SparkMurmurHash3_32 m_seed Struct_view =
     (case cudf_assert (False \<and> True) of Inl f \<Rightarrow> Inl f | Inr _ \<Rightarrow> Inr 0)"
| "SparkMurmurHash3_32 m_seed (Int32 key) = Inr (Spark_compute m_seed key)"
| "SparkMurmurHash3_32 m_seed (UInt32 key) = Inr (Spark_compute m_seed key)"
| "SparkMurmurHash3_32 m_seed (Int64 key) = Inr (Spark_compute m_seed key)"
| "SparkMurmurHash3_32 m_seed (UInt64 key) = Inr (Spark_compute m_seed key)"

section \<open>\<open>IdentityHash\<close>\<close>

text \<open>
  \<open>static_cast<result_type>(key)\<close> converts the value of the key and has no fault path.
  From an integer type the result is the value modulo \<open>2 ^ 32\<close>.  From a floating-point
  type the value is truncated towards zero; a finite key with exponent field \<open>e\<close> and
  mantissa field \<open>m\<close> has the magnitude \<open>(2 ^ mbits + m) * 2 ^ (e - bias - mbits)\<close>, or
  less than one when \<open>e = 0\<close>.  Where the truncated value is not a \<open>uint32_t\<close> C++ leaves
  the result open and the code still returns a number: the model takes the conversion of
  the x86-64 build, which truncates to a signed 64-bit integer and keeps its low 32 bits
  (\<open>-1.0f\<close> gives 4294967295), and gives 0 for NaN, the infinities and magnitudes from
  \<open>2 ^ 63\<close> on.
\<close>

definition fp_trunc_magnitude :: "nat \<Rightarrow> nat \<Rightarrow> nat \<Rightarrow> nat \<Rightarrow> nat" where
  "fp_trunc_magnitude mbits bias e m =
     (if e = 0 then 0
      else if bias + mbits \<le> e then (2 ^ mbits + m) * 2 ^ (e - (bias + mbits))
      else (2 ^ mbits + m) div 2 ^ (bias + mbits - e))"

definition fp_to_uint32 :: "bool \<Rightarrow> bool \<Rightarrow> nat \<Rightarrow> 32 word" where
  "fp_to_uint32 is_finite negative mag =
     (if \<not> is_finite \<or> 2 ^ 63 \<le> mag then 0
      else if negative then - of_nat mag
      else of_nat mag)"

definition float_to_uint32 :: "32 word \<Rightarrow> 32 word" where
  "float_to_uint32 w =
     (let e = unat (drop_bit 23 w AND 0xFF); m = unat (w AND 0x7FFFFF)
      in fp_to_uint32 (e \<noteq> 255) (bit w 31) (fp_trunc_magnitude 23 127 e m))"

definition double_to_uint32 :: "64 word \<Rightarrow> 32 word" where
  "double_to_uint32 w =
     (let e = unat (drop_bit 52 w AND 0x7FF); m = unat (w AND 0xFFFFFFFFFFFFF)
      in fp_to_uint32 (e \<noteq> 2047) (bit w 63) (fp_trunc_magnitude 52 1023 e m))"

text \<open>\<open>std::is_arithmetic_v<Key>\<close> selects between the two overloads of \<open>operator()\<close>:
  the last equation is the overload of the keys that are not arithmetic (decimals, string
  views and nested keys).\<close>

fun IdentityHash :: "32 word \<Rightarrow> key \<Rightarrow> fault + hash_value_type" where
  "IdentityHash m_seed (Bool key) = Inr (of_bool key)"
| "IdentityHash m_seed (Int8 key) = Inr (scast key)"
| "IdentityHash m_seed (UInt8 key) = Inr (ucast key)"
| "IdentityHash m_seed (Int16 key) = Inr (scast key)"
| "IdentityHash m_seed (UInt16 key) = Inr (ucast key)"
| "IdentityHash m_seed (Int32 key) = Inr (scast key)"
| "IdentityHash m_seed (UInt32 key) = Inr (ucast key)"
| "IdentityHash m_seed (Int64 key) = Inr (scast key)"
| "IdentityHash m_seed (UInt64 key) = Inr (ucast key)"
| "IdentityHash m_seed (Float32 key) = Inr (float_to_uint32 key)"
| "IdentityHash m_seed (Float64 key) = Inr (double_to_uint32 key)"
| "IdentityHash m_seed key =
     (case cudf_assert (False \<and> True) of Inl f \<Rightarrow> Inl f | Inr _ \<Rightarrow> Inr 0)"

section \<open>Definitions that follow the specification\<close>

text \<open>
  The reference MurmurHash3 as the specification words it, over lists: the full four-byte
  blocks read as little-endian words, the library's rotation \<open>word_rotl\<close>, and the tail
  bytes gathered into one zero-extended scratch word.
\<close>

definition le_word :: "byte list \<Rightarrow> 32 word" where
  "le_word bs = foldr (\<lambda>b w. ucast b OR push_bit 8 w) bs 0"

definition spec_mix_k1 :: "32 word \<Rightarrow> 32 word" where
  "spec_mix_k1 k = word_rotl 15 (k * 0xcc9e2d51) * 0x1b873593"

definition spec_mix_h1 :: "32 word \<Rightarrow> 32 word \<Rightarrow> 32 word" where
  "spec_mix_h1 h k = word_rotl 13 (h XOR spec_mix_k1 k) * 5 + 0xe6546b64"

definition spec_avalanche :: "32 word \<Rightarrow> 32 word" where
  "spec_avalanche h0 =
     (let h = h0 XOR drop_bit 16 h0;
          h = h * 0x85ebca6b;
          h = h XOR drop_bit 13 h;
          h = h * 0xc2b2ae35
      in h XOR drop_bit 16 h)"

definition spec_blocks :: "byte list \<Rightarrow> byte list list" where
  "spec_blocks data = map (\<lambda>i. take 4 (drop (4 * i) data)) [0..<length data div 4]"

definition spec_tail :: "byte list \<Rightarrow> byte list" where
  "spec_tail data = drop (4 * (length data div 4)) data"

definition murmur3_reference :: "32 word \<Rightarrow> byte list \<Rightarrow> 32 word" where
  "murmur3_reference seed data =
     (let h1 = foldl spec_mix_h1 seed (map le_word (spec_blocks data));
          h1 = h1 XOR spec_mix_k1 (le_word (spec_tail data))
      in spec_avalanche (h1 XOR of_nat (length data)))"

text \<open>
  The tail rule of the reference-engine-compatible hash, first as the specification
  describes it (each tail byte sign-extended, mixed and XORed into \<open>h1\<close>, nothing more),
  then with the whole block step applied to each sign-extended tail byte.
\<close>

definition spark_hash_as_described :: "32 word \<Rightarrow> byte list \<Rightarrow> 32 word" where
  "spark_hash_as_described seed data =
     (let h1 = foldl spec_mix_h1 seed (map le_word (spec_blocks data));
          h1 = foldl (\<lambda>h b. h XOR spec_mix_k1 (scast b)) h1 (spec_tail data)
      in spec_avalanche (h1 XOR of_nat (length data)))"

definition spark_hash_block_step_tail :: "32 word \<Rightarrow> byte list \<Rightarrow> 32 word" where
  "spark_hash_block_step_tail seed data =
     (let h1 = foldl spec_mix_h1 seed (map le_word (spec_blocks data));
          h1 = foldl (\<lambda>h b. spec_mix_h1 h (scast b)) h1 (spec_tail data)
      in spec_avalanche (h1 XOR of_nat (length data)))"

text \<open>
  The value of a big-endian byte span read as a two's-complement number: what sign
  extension of the span reproduces.
\<close>

definition be_unsigned :: "byte list \<Rightarrow> int" where
  "be_unsigned bs = foldl (\<lambda>acc b. 256 * acc + uint b) 0 bs"

definition sign_extend_be :: "byte list \<Rightarrow> int" where
  "sign_extend_be bs =
     (if bs \<noteq> [] \<and> bit (hd bs) 7 then be_unsigned bs - 2 ^ (8 * length bs)
      else be_unsigned bs)"

text \<open>
  Notions for the decimal encoder: a value fits \<open>n\<close> bytes when it lies in the range of
  an \<open>n\<close>-byte two's-complement number; \<open>fill_cleared\<close> complements a negative value,
  so that the sign-fill bytes of the value are the zero bytes of the result;
  \<open>retained_length\<close> is the length that the encoder computes.
\<close>

definition fits :: "nat \<Rightarrow> int \<Rightarrow> bool" where
  "fits n x \<longleftrightarrow> - (2 ^ (8 * n - 1)) \<le> x \<and> x < 2 ^ (8 * n - 1)"

definition fill_cleared :: "128 word \<Rightarrow> 128 word" where
  "fill_cleared v = (if sint v < 0 then NOT v else v)"

definition retained_length :: "128 word \<Rightarrow> nat" where
  "retained_length v =
     (let m = max 1 (16 - find_if_not (\<lambda>b. b = (if sint v < 0 then 0xff else 0x00 :: byte))
                (rev (object_bytes v)))
      in if m < 16 \<and> ((sint v < 0) \<noteq> (object_bytes v ! (m - 1) AND 0x80 \<noteq> 0)) then m + 1 else m)"

text \<open>
  The value of a finite IEEE 754 key, from its sign bit, exponent field \<open>e\<close> and
  mantissa field \<open>m\<close>: \<open>(1 + m / 2 ^ mbits) * 2 ^ (e - bias)\<close> for a normal number,
  \<open>m / 2 ^ mbits * 2 ^ (1 - bias)\<close> for a subnormal one (\<open>e = 0\<close>).
\<close>

definition fp_magnitude :: "nat \<Rightarrow> nat \<Rightarrow> nat \<Rightarrow> nat \<Rightarrow> real" where
  "fp_magnitude mbits bias e m =
     (if e = 0 then real m / 2 ^ (bias + mbits - 1)
      else (2 ^ mbits + real m) * 2 ^ e / 2 ^ (bias + mbits))"

definition float_value :: "32 word \<Rightarrow> real" where
  "float_value w =
     (if bit w 31 then - 1 else 1) *
       fp_magnitude 23 127 (unat (drop_bit 23 w AND 0xFF)) (unat (w AND 0x7FFFFF))"

definition double_value :: "64 word \<Rightarrow> real" where
  "double_value w =
     (if bit w 63 then - 1 else 1) *
       fp_magnitude 52 1023 (unat (drop_bit 52 w AND 0x7FF)) (unat (w AND 0xFFFFFFFFFFFFF))"

text \<open>
  The canonical byte representation of a key under the generic hash: the bytes of the
  key after \<open>normalize_nans_and_zeros\<close>; a nested key has none.
\<close>

fun canonical_bytes :: "key \<Rightarrow> byte list option" where
  "canonical_bytes (Bool key) = Some (object_bytes (of_bool key :: 8 word))"
| "canonical_bytes (Int8 key) = Some (object_bytes key)"
| "canonical_bytes (UInt8 key) = Some (object_bytes key)"
| "canonical_bytes (Int16 key) = Some (object_bytes key)"
| "canonical_bytes (UInt16 key) = Some (object_bytes key)"
| "canonical_bytes (Int32 key) = Some (object_bytes key)"
| "canonical_bytes (UInt32 key) = Some (object_bytes key)"
| "canonical_bytes (Int64 key) = Some (object_bytes key)"
| "canonical_bytes (UInt64 key) = Some (object_bytes key)"
| "canonical_bytes (Float32 key) = Some (object_bytes (normalize_nans_and_zeros32 key))"
| "canonical_bytes (Float64 key) = Some (object_bytes (normalize_nans_and_zeros64 key))"
| "canonical_bytes (Decimal32 key) = Some (object_bytes key)"
| "canonical_bytes (Decimal64 key) = Some (object_bytes key)"
| "canonical_bytes (Decimal128 key) = Some (object_bytes key)"
| "canonical_bytes (String_view key) = Some key"
| "canonical_bytes List_view = None"
| "canonical_bytes Struct_view = None"

section \<open>Lemmas and theorems\<close>

text \<open>The equations that evaluate the two hashes on a concrete span.\<close>

lemmas hash_eval =
  Murmur_compute_bytes_def Spark_compute_bytes_def BLOCK_SIZE_def c1_def c2_def c3_def
  rot_c1_def rot_c2_def Murmur_blocks.simps Spark_blocks.simps Spark_tail.simps Murmur_tail_def
  Murmur_rotl32_def Spark_rotl32_def Murmur_fmix32_def Spark_fmix32_def Murmur_getblock32_def
  Spark_getblock32_def Let_def

subsection \<open>The two variants share the block loop\<close>

lemma Spark_rotl32_eq: "Spark_rotl32 = Murmur_rotl32"
  by (simp add: fun_eq_iff Spark_rotl32_def Murmur_rotl32_def)

lemma Spark_fmix32_eq: "Spark_fmix32 = Murmur_fmix32"
  by (simp add: fun_eq_iff Spark_fmix32_def Murmur_fmix32_def)

lemma Spark_getblock32_eq: "Spark_getblock32 = Murmur_getblock32"
  by (simp add: fun_eq_iff Spark_getblock32_def Murmur_getblock32_def)

lemma Spark_blocks_eq: "Spark_blocks data nblocks i h1 = Murmur_blocks data nblocks i h1"
proof (induction data nblocks i h1 rule: Murmur_blocks.induct)
  case (1 data nblocks i h1)
  show ?case
  proof (cases "i < nblocks")
    case True
    with "1.IH" show ?thesis
      by (subst Spark_blocks.simps, subst Murmur_blocks.simps)
        (simp add: Let_def Spark_rotl32_eq Spark_getblock32_eq)
  next
    case False
    then show ?thesis
      by (subst Spark_blocks.simps, subst Murmur_blocks.simps) simp
  qed
qed

text \<open>
  C10.  For every seed and every byte span whose length is an exact multiple of 4, the
  generic hash's \<open>compute_bytes\<close> and the reference-engine-compatible hash's
  \<open>compute_bytes\<close> return the same hash value.
\<close>

theorem compute_bytes_agree_without_tail:
  "length data mod 4 = 0 \<Longrightarrow> Murmur_compute_bytes seed data = Spark_compute_bytes seed data"
proof -
  assume m: "length data mod 4 = 0"
  then have e: "length data div 4 * 4 = length data"
    by presburger
  have t1: "Murmur_tail data (length data) (length data div 4 * 4) h = h" for h
    using m by (simp add: Murmur_tail_def)
  have t2: "Spark_tail data (length data) (length data div 4 * 4) h = h" for h
    by (subst Spark_tail.simps) (simp add: e)
  show ?thesis
    by (simp add: Murmur_compute_bytes_def Spark_compute_bytes_def BLOCK_SIZE_def
        t1 t2 Spark_blocks_eq Spark_fmix32_eq)
qed

theorem compute_bytes_agree_without_tail_witness:
  "length [1, 2, 3, 4 :: byte] mod 4 = 0 \<and>
   Murmur_compute_bytes 7 [1, 2, 3, 4] = Spark_compute_bytes 7 [1, 2, 3, 4]"
  using compute_bytes_agree_without_tail [of "[1, 2, 3, 4]" 7] by simp

section \<open>Nested keys\<close>

text \<open>
  C1.  For every hash functor (generic, reference-engine-compatible and identity) and
  every seed, invoking the hash on a nested key (\<open>list_view\<close> or \<open>struct_view\<close>) raises the
  Unsupported-Key-Type fault; the call never produces a hash value.
\<close>

theorem nested_key_raises_fault:
  "MurmurHash3_32 seed List_view = Inl Unsupported_Key_Type \<and>
   MurmurHash3_32 seed Struct_view = Inl Unsupported_Key_Type \<and>
   SparkMurmurHash3_32 seed List_view = Inl Unsupported_Key_Type \<and>
   SparkMurmurHash3_32 seed Struct_view = Inl Unsupported_Key_Type \<and>
   IdentityHash seed List_view = Inl Unsupported_Key_Type \<and>
   IdentityHash seed Struct_view = Inl Unsupported_Key_Type"
  by (simp add: cudf_assert_def)

section \<open>Canonicalisation of floating-point keys\<close>

lemma isnan32_not_zero: "isnan32 w \<Longrightarrow> \<not> eq_zero32 w"
  by (auto simp: isnan32_def eq_zero32_def)

lemma isnan64_not_zero: "isnan64 w \<Longrightarrow> \<not> eq_zero64 w"
  by (auto simp: isnan64_def eq_zero64_def)

text \<open>
  C7.  For both block-mixing hash variants, every seed, both floating-point widths and
  every pair of bit patterns \<open>p\<close> and \<open>q\<close> that encode NaN at that width, hashing \<open>p\<close> and
  hashing \<open>q\<close> return the same value: the hash of the canonical quiet NaN.
\<close>

theorem nan_keys_collide:
  "isnan32 p \<Longrightarrow> isnan32 q \<Longrightarrow> isnan64 p' \<Longrightarrow> isnan64 q' \<Longrightarrow>
   MurmurHash3_32 seed (Float32 p) = MurmurHash3_32 seed (Float32 q) \<and>
   MurmurHash3_32 seed (Float64 p') = MurmurHash3_32 seed (Float64 q') \<and>
   SparkMurmurHash3_32 seed (Float32 p) = SparkMurmurHash3_32 seed (Float32 q) \<and>
   SparkMurmurHash3_32 seed (Float64 p') = SparkMurmurHash3_32 seed (Float64 q') \<and>
   MurmurHash3_32 seed (Float32 p) = Inr (Murmur_compute seed quiet_NaN32) \<and>
   MurmurHash3_32 seed (Float64 p') = Inr (Murmur_compute seed quiet_NaN64) \<and>
   SparkMurmurHash3_32 seed (Float32 p) = Inr (Spark_compute seed quiet_NaN32) \<and>
   SparkMurmurHash3_32 seed (Float64 p') = Inr (Spark_compute seed quiet_NaN64)"
  by (simp add: Murmur_compute_floating_point32_def Murmur_compute_floating_point64_def
      Spark_compute_floating_point32_def Spark_compute_floating_point64_def
      isnan32_not_zero isnan64_not_zero)

theorem nan_keys_collide_witness:
  "isnan32 0x7FC00001 \<and> isnan32 0xFFFFFFFF \<and>
   isnan64 0x7FF0000000000001 \<and> isnan64 0xFFF8000000000000 \<and>
   MurmurHash3_32 42 (Float32 0x7FC00001) = MurmurHash3_32 42 (Float32 0xFFFFFFFF) \<and>
   MurmurHash3_32 42 (Float64 0x7FF0000000000001) =
     MurmurHash3_32 42 (Float64 0xFFF8000000000000) \<and>
   SparkMurmurHash3_32 42 (Float32 0x7FC00001) = SparkMurmurHash3_32 42 (Float32 0xFFFFFFFF) \<and>
   SparkMurmurHash3_32 42 (Float64 0x7FF0000000000001) =
     SparkMurmurHash3_32 42 (Float64 0xFFF8000000000000)"
proof -
  have n: "isnan32 0x7FC00001" "isnan32 0xFFFFFFFF"
    "isnan64 0x7FF0000000000001" "isnan64 0xFFF8000000000000"
    by (simp_all add: isnan32_def isnan64_def)
  show ?thesis
    using n nan_keys_collide [OF n, of 42] by simp
qed

section \<open>Width promotion in the reference-engine-compatible hash\<close>




section \<open>The generic hash is the reference MurmurHash3\<close>

lemma Murmur_rotl32_eq:
  assumes "0 < r" "r < 32"
  shows "Murmur_rotl32 x r = word_rotl r x"
proof (rule bit_word_eqI)
  fix n assume "n < LENGTH(32)"
  then have n: "n < 32" by simp
  have m: "(n + 32 - r) mod 32 = (if n < r then n + 32 - r else n - r)"
    using n assms by (auto simp: mod_if)
  have m': "32 + n - r = n + 32 - r"
    by simp
  show "bit (Murmur_rotl32 x r) n = bit (word_rotl r x) n"
    using n assms by (auto simp: Murmur_rotl32_def bit_simps m m' dest: bit_imp_le_length)
qed

lemma le_word_4: "le_word [a, b, c, d] =
   ucast a OR push_bit 8 (ucast b) OR push_bit 16 (ucast c) OR push_bit 24 (ucast d)"
  unfolding le_word_def
  by (rule bit_word_eqI) (auto simp: bit_simps)

lemma take4_drop:
  assumes "k + 4 \<le> length xs"
  shows "take 4 (drop k xs) = [xs ! k, xs ! (k + 1), xs ! (k + 2), xs ! (k + 3)]"
proof -
  have "drop k xs = xs ! k # drop (k + 1) xs"
    using assms by (simp add: Cons_nth_drop_Suc)
  also have "drop (k + 1) xs = xs ! (k + 1) # drop (k + 2) xs"
    using assms by (simp add: Cons_nth_drop_Suc)
  also have "drop (k + 2) xs = xs ! (k + 2) # drop (k + 3) xs"
    using assms Cons_nth_drop_Suc [of "k + 2" xs] by (simp add: numeral_eq_Suc)
  also have "drop (k + 3) xs = xs ! (k + 3) # drop (k + 4) xs"
    using assms Cons_nth_drop_Suc [of "k + 3" xs] by (simp add: numeral_eq_Suc)
  finally show ?thesis
    by (simp add: numeral_eq_Suc)
qed

lemma getblock32_le_word:
  "k + 4 \<le> length data \<Longrightarrow> Murmur_getblock32 data k = le_word (take 4 (drop k data))"
  by (simp add: take4_drop le_word_4 Murmur_getblock32_def)

lemma block_step:
  "(let k1 = k; k1 = k1 * c1; k1 = Murmur_rotl32 k1 rot_c1; k1 = k1 * c2; h = h1 XOR k1;
        h = Murmur_rotl32 h rot_c2; h = h * 5 + c3 in f h) = f (spec_mix_h1 h1 k)"
  by (simp add: Let_def spec_mix_h1_def spec_mix_k1_def c1_def c2_def c3_def rot_c1_def rot_c2_def Murmur_rotl32_eq)

lemma Murmur_blocks_foldl:
  "4 * nblocks \<le> length data \<Longrightarrow>
   Murmur_blocks data nblocks i h1 =
     foldl spec_mix_h1 h1 (map (\<lambda>j. le_word (take 4 (drop (4 * j) data))) [i..<nblocks])"
proof (induction "nblocks - i" arbitrary: i h1)
  case 0
  then show ?case by (subst Murmur_blocks.simps) simp
next
  case (Suc d)
  then have lt: "i < nblocks" and d: "d = nblocks - (i + 1)"
    by simp_all
  have k: "i * 4 + 4 \<le> length data"
    using lt Suc.prems by simp
  have u: "[i..<nblocks] = i # [i + 1..<nblocks]"
    using lt by (simp add: upt_conv_Cons)
  have "Murmur_blocks data nblocks i h1 =
      Murmur_blocks data nblocks (i + 1) (spec_mix_h1 h1 (Murmur_getblock32 data (i * 4)))"
    by (subst Murmur_blocks.simps) (simp only: lt if_True block_step BLOCK_SIZE_def)
  also have "\<dots> = foldl spec_mix_h1 (spec_mix_h1 h1 (Murmur_getblock32 data (i * 4)))
      (map (\<lambda>j. le_word (take 4 (drop (4 * j) data))) [i + 1..<nblocks])"
    by (rule Suc.hyps(1) [OF d Suc.prems])
  finally show ?case
    by (simp add: u getblock32_le_word [OF k] mult.commute)
qed

lemma spec_mix_k1_0: "spec_mix_k1 0 = 0"
  by (simp add: spec_mix_k1_def)

lemma tail_step:
  "Murmur_rotl32 (k * c1) rot_c1 * c2 = spec_mix_k1 k"
  by (simp add: spec_mix_k1_def c1_def c2_def rot_c1_def Murmur_rotl32_eq)

lemma le_word_1: "le_word [a] = ucast a"
  by (simp add: le_word_def)

lemma le_word_2: "le_word [a, b] = push_bit 8 (ucast b) XOR ucast a"
  unfolding le_word_def
  by (rule bit_word_eqI) (auto simp: bit_simps dest: bit_imp_le_length)

lemma le_word_3: "le_word [a, b, c] = (push_bit 16 (ucast c) XOR push_bit 8 (ucast b)) XOR ucast a"
  unfolding le_word_def
  by (rule bit_word_eqI) (auto simp: bit_simps dest: bit_imp_le_length)

lemma drop_nth_Cons: "k < length xs \<Longrightarrow> drop k xs = xs ! k # drop (k + 1) xs"
  by (simp add: Cons_nth_drop_Suc)

lemma drop_tail_cases:
  assumes "n = length xs div 4"
  shows "length xs mod 4 = 0 \<Longrightarrow> drop (4 * n) xs = []"
    and "length xs mod 4 = 1 \<Longrightarrow> drop (4 * n) xs = [xs ! (4 * n)]"
    and "length xs mod 4 = 2 \<Longrightarrow> drop (4 * n) xs = [xs ! (4 * n), xs ! (4 * n + 1)]"
    and "length xs mod 4 = 3 \<Longrightarrow> drop (4 * n) xs = [xs ! (4 * n), xs ! (4 * n + 1), xs ! (4 * n + 2)]"
proof -
  have l: "length xs = 4 * n + length xs mod 4"
    using assms by simp
  show "length xs mod 4 = 0 \<Longrightarrow> drop (4 * n) xs = []"
    using l by simp
  show "length xs mod 4 = 1 \<Longrightarrow> drop (4 * n) xs = [xs ! (4 * n)]"
  proof -
    assume m: "length xs mod 4 = 1"
    have "drop (4 * n) xs = xs ! (4 * n) # drop (4 * n + 1) xs"
      using l m by (intro drop_nth_Cons) linarith
    moreover have "drop (4 * n + 1) xs = []"
      using l m by simp
    ultimately show ?thesis by simp
  qed
  show "length xs mod 4 = 2 \<Longrightarrow> drop (4 * n) xs = [xs ! (4 * n), xs ! (4 * n + 1)]"
  proof -
    assume m: "length xs mod 4 = 2"
    have "drop (4 * n) xs = xs ! (4 * n) # drop (4 * n + 1) xs"
      using l m by (intro drop_nth_Cons) linarith
    moreover have "drop (4 * n + 1) xs = xs ! (4 * n + 1) # drop (4 * n + 1 + 1) xs"
      using l m by (intro drop_nth_Cons) linarith
    moreover have "drop (4 * n + 1 + 1) xs = []"
      using l m by simp
    ultimately show ?thesis by simp
  qed
  show "length xs mod 4 = 3 \<Longrightarrow> drop (4 * n) xs = [xs ! (4 * n), xs ! (4 * n + 1), xs ! (4 * n + 2)]"
  proof -
    assume m: "length xs mod 4 = 3"
    have "drop (4 * n) xs = xs ! (4 * n) # drop (4 * n + 1) xs"
      using l m by (intro drop_nth_Cons) linarith
    moreover have "drop (4 * n + 1) xs = xs ! (4 * n + 1) # drop (4 * n + 1 + 1) xs"
      using l m by (intro drop_nth_Cons) linarith
    moreover have "drop (4 * n + 1 + 1) xs = xs ! (4 * n + 2) # drop (4 * n + 2 + 1) xs"
      using l m drop_nth_Cons [of "4 * n + 2" xs] by simp
    moreover have "drop (4 * n + 2 + 1) xs = []"
      using l m by simp
    ultimately show ?thesis by simp
  qed
qed

lemma Murmur_tail_spec:
  "Murmur_tail data (length data) (length data div 4 * 4) h1 =
     h1 XOR spec_mix_k1 (le_word (spec_tail data))"
proof -
  have e: "length data div 4 * 4 = 4 * (length data div 4)"
    by simp
  have "length data mod 4 < 4" by simp
  then consider "length data mod 4 = 0" | "length data mod 4 = 1" | "length data mod 4 = 2" | "length data mod 4 = 3"
    by linarith
  then show ?thesis
  proof cases
    case 1
    then show ?thesis
      by (simp add: Murmur_tail_def spec_tail_def drop_tail_cases(1)[OF refl] le_word_def spec_mix_k1_0)
  next
    case 2
    then show ?thesis
      unfolding e
      by (simp add: Murmur_tail_def Let_def spec_tail_def drop_tail_cases(2)[OF refl] le_word_1 tail_step)
  next
    case 3
    then show ?thesis
      unfolding e
      by (simp add: Murmur_tail_def Let_def spec_tail_def drop_tail_cases(3)[OF refl] le_word_2 tail_step)
  next
    case 4
    then show ?thesis
      unfolding e
      by (simp add: Murmur_tail_def Let_def spec_tail_def drop_tail_cases(4)[OF refl] le_word_3 tail_step)
  qed
qed

lemma Murmur_fmix32_spec: "Murmur_fmix32 h = spec_avalanche h"
  by (simp add: Murmur_fmix32_def spec_avalanche_def Let_def)

text \<open>
  C5.  For every seed and every byte span, the generic hash's \<open>compute_bytes\<close> equals the
  reference MurmurHash3: \<open>length / 4\<close> little-endian blocks mixed into \<open>h1\<close>, the 0 to 3
  tail bytes folded zero-extended into one scratch word that is mixed and XORed into \<open>h1\<close>
  once, then \<open>h1 ^= length\<close> and the avalanche mix.
\<close>

theorem Murmur_compute_bytes_is_reference:
  "Murmur_compute_bytes seed data = murmur3_reference seed data"
  by (simp add: Murmur_compute_bytes_def murmur3_reference_def BLOCK_SIZE_def Murmur_blocks_foldl
      Murmur_tail_spec Murmur_fmix32_spec spec_blocks_def Let_def comp_def)

section \<open>The tail bytes of the reference-engine-compatible hash\<close>

lemma word_rotl_15_13:
  "word_rotl 15 (x :: 32 word) = push_bit 15 x OR drop_bit 17 x"
  "word_rotl 13 (x :: 32 word) = push_bit 13 x OR drop_bit 19 x"
  using Murmur_rotl32_eq [of 15 x] Murmur_rotl32_eq [of 13 x]
  by (simp_all add: Murmur_rotl32_def)

lemma Spark_tail_foldl:
  "Spark_tail data (length data) i h1 = foldl (\<lambda>h b. spec_mix_h1 h (scast b)) h1 (drop i data)"
proof (induction "length data - i" arbitrary: i h1)
  case 0
  then show ?case by (subst Spark_tail.simps) simp
next
  case (Suc d)
  then have lt: "i < length data" and d: "d = length data - (i + 1)"
    by simp_all
  have "Spark_tail data (length data) i h1 =
      Spark_tail data (length data) (i + 1) (spec_mix_h1 h1 (scast (data ! i)))"
    by (subst Spark_tail.simps) (simp only: lt if_True block_step Spark_rotl32_eq)
  also have "\<dots> = foldl (\<lambda>h b. spec_mix_h1 h (scast b)) (spec_mix_h1 h1 (scast (data ! i)))
      (drop (i + 1) data)"
    by (rule Suc.hyps(1) [OF d])
  finally show ?case
    by (simp add: drop_nth_Cons [OF lt])
qed

lemma Spark_compute_bytes_foldl:
  "Spark_compute_bytes seed data = spark_hash_block_step_tail seed data"
  by (simp add: Spark_compute_bytes_def spark_hash_block_step_tail_def BLOCK_SIZE_def
      Spark_blocks_eq Murmur_blocks_foldl Spark_tail_foldl Spark_fmix32_eq Murmur_fmix32_spec
      spec_blocks_def spec_tail_def Let_def comp_def mult.commute)

text \<open>
  C6, as stated, fails: read as the rule for the tail (each tail byte sign-extended, put
  through the \<open>c1\<close>/rotate-15/\<open>c2\<close> mix and XORed into \<open>h1\<close>), it gives for the one-byte
  span \<open>01\<close> and seed 0 the value 3831157163, while the code returns 1978132887.
\<close>

theorem spark_tail_as_described_counterexample:
  "Spark_compute_bytes 0 [1] = 1978132887 \<and> spark_hash_as_described 0 [1] = 3831157163 \<and>
   Spark_compute_bytes 0 [1] \<noteq> spark_hash_as_described 0 [1]"
  by (simp add: hash_eval spark_hash_as_described_def spec_blocks_def spec_tail_def
      spec_avalanche_def spec_mix_k1_def word_rotl_15_13)

text \<open>
  C6, amended.  In the reference-engine-compatible hash's \<open>compute_bytes\<close>, for every seed
  and every byte span, each tail byte is folded in individually with the whole block step:
  the byte is sign-extended to a 32-bit word, mixed with \<open>c1\<close>/rotate-15/\<open>c2\<close>, XORed into
  \<open>h1\<close>, and then \<open>h1\<close> is rotated left by 13 and replaced by \<open>h1 * 5 + c3\<close>.
\<close>

theorem Spark_compute_bytes_tail_block_step:
  "Spark_compute_bytes seed data = spark_hash_block_step_tail seed data"
proof -
  have blocks: "Spark_blocks data (length data div 4) 0 seed =
      foldl spec_mix_h1 seed (map le_word (spec_blocks data))"
    by (simp add: Spark_blocks_eq Murmur_blocks_foldl spec_blocks_def comp_def)
  have tail: "Spark_tail data (length data) (length data div 4 * 4) h =
      foldl (\<lambda>h b. spec_mix_h1 h (scast b)) h (spec_tail data)" for h
    by (simp add: Spark_tail_foldl spec_tail_def mult.commute)
  show ?thesis
    by (simp add: Spark_compute_bytes_def spark_hash_block_step_tail_def BLOCK_SIZE_def
        blocks tail Spark_fmix32_eq Murmur_fmix32_spec Let_def)
qed

section \<open>The mixing steps are injective\<close>

lemma xorshift16_inverse: "(x XOR drop_bit 16 x) XOR drop_bit 16 (x XOR drop_bit 16 x) = x"
  for x :: "32 word"
  by (rule bit_word_eqI) (auto simp: bit_simps dest: bit_imp_le_length)

lemma xorshift13_inverse:
  "(x XOR drop_bit 13 x) XOR drop_bit 13 (x XOR drop_bit 13 x) XOR drop_bit 26 (x XOR drop_bit 13 x) = x"
  for x :: "32 word"
  by (rule bit_word_eqI) (auto simp: bit_simps dest: bit_imp_le_length)

lemma xorshift16_inj: "x XOR drop_bit 16 x = y XOR drop_bit 16 y \<Longrightarrow> x = y" for x y :: "32 word"
  using xorshift16_inverse [of x] xorshift16_inverse [of y] by simp

lemma xorshift13_inj: "x XOR drop_bit 13 x = y XOR drop_bit 13 y \<Longrightarrow> x = y" for x y :: "32 word"
  using xorshift13_inverse [of x] xorshift13_inverse [of y] by simp

lemma mult_odd_inj:
  fixes c d x y :: "32 word"
  assumes "c * d = 1" and "x * c = y * c"
  shows "x = y"
proof -
  have "x * c * d = y * c * d" using assms(2) by simp
  then have "x * (c * d) = y * (c * d)" by (simp only: mult.assoc)
  then show ?thesis by (simp add: assms(1))
qed

lemma spec_avalanche_inj: "spec_avalanche x = spec_avalanche y \<Longrightarrow> x = y"
proof -
  assume a: "spec_avalanche x = spec_avalanche y"
  let ?f = "\<lambda>h :: 32 word. h XOR drop_bit 16 h"
  let ?g = "\<lambda>h :: 32 word. h XOR drop_bit 13 h"
  from a have "?f (?g (?f x * 0x85ebca6b) * 0xc2b2ae35) = ?f (?g (?f y * 0x85ebca6b) * 0xc2b2ae35)"
    by (simp add: spec_avalanche_def Let_def)
  then have "?g (?f x * 0x85ebca6b) * 0xc2b2ae35 = ?g (?f y * 0x85ebca6b) * 0xc2b2ae35"
    by (rule xorshift16_inj)
  then have "?g (?f x * 0x85ebca6b) = ?g (?f y * 0x85ebca6b)"
    by (rule mult_odd_inj [where d = "0x7ed1b41d", rotated]) simp
  then have "?f x * 0x85ebca6b = ?f y * 0x85ebca6b"
    by (rule xorshift13_inj)
  then have "?f x = ?f y"
    by (rule mult_odd_inj [where d = "0xa5cb9243", rotated]) simp
  then show "x = y"
    by (rule xorshift16_inj)
qed

lemma word_rotl_inj: "word_rotl n x = word_rotl n y \<Longrightarrow> x = y" for x y :: "32 word"
  by (metis word_rot_lr)

lemma spec_mix_k1_inj: "spec_mix_k1 k = spec_mix_k1 k' \<Longrightarrow> k = k'"
proof -
  assume "spec_mix_k1 k = spec_mix_k1 k'"
  then have "word_rotl 15 (k * 0xcc9e2d51) * 0x1b873593 = word_rotl 15 (k' * 0xcc9e2d51) * 0x1b873593"
    by (simp add: spec_mix_k1_def)
  then have "word_rotl 15 (k * 0xcc9e2d51) = word_rotl 15 (k' * 0xcc9e2d51)"
    by (rule mult_odd_inj [where d = "0x56ed309b", rotated]) simp
  then have "k * 0xcc9e2d51 = k' * 0xcc9e2d51"
    by (rule word_rotl_inj)
  then show "k = k'"
    by (rule mult_odd_inj [where d = "0xdee13bb1", rotated]) simp
qed

lemma spec_mix_h1_inj: "spec_mix_h1 h k = spec_mix_h1 h k' \<Longrightarrow> k = k'"
proof -
  assume "spec_mix_h1 h k = spec_mix_h1 h k'"
  then have "word_rotl 13 (h XOR spec_mix_k1 k) * 5 = word_rotl 13 (h XOR spec_mix_k1 k') * 5"
    by (simp add: spec_mix_h1_def)
  then have "word_rotl 13 (h XOR spec_mix_k1 k) = word_rotl 13 (h XOR spec_mix_k1 k')"
    by (rule mult_odd_inj [where d = "0xcccccccd", rotated]) simp
  then have "h XOR spec_mix_k1 k = h XOR spec_mix_k1 k'"
    by (rule word_rotl_inj)
  then have "spec_mix_k1 k = spec_mix_k1 k'"
    by (metis bit.xor_left_self)
  then show "k = k'"
    by (rule spec_mix_k1_inj)
qed

lemma Spark_hash_one_block:
  "Spark_compute_bytes seed [a, b, c, d] =
     spec_avalanche (spec_mix_h1 seed (le_word [a, b, c, d]) XOR 4)"
  by (simp add: Spark_compute_bytes_foldl spark_hash_block_step_tail_def spec_blocks_def
      spec_tail_def upt_rec)

lemma Spark_hash_two_blocks:
  "Spark_compute_bytes seed [a, b, c, d, e, f, g, h] =
     spec_avalanche (spec_mix_h1 (spec_mix_h1 seed (le_word [a, b, c, d])) (le_word [e, f, g, h])
       XOR 8)"
  by (simp add: Spark_compute_bytes_foldl spark_hash_block_step_tail_def spec_blocks_def
      spec_tail_def upt_rec)

lemma Spark_last_block_inj:
  assumes "spec_avalanche (spec_mix_h1 h k XOR n) = spec_avalanche (spec_mix_h1 h k' XOR n)"
  shows "k = k'"
proof -
  from assms have "spec_mix_h1 h k XOR n = spec_mix_h1 h k' XOR n"
    by (rule spec_avalanche_inj)
  then have "spec_mix_h1 h k = spec_mix_h1 h k'"
    by (metis bit.xor_left_self xor.commute)
  then show ?thesis
    by (rule spec_mix_h1_inj)
qed

lemma le_word_zero_blocks:
  "le_word [0, 0, 0, 0x80] \<noteq> le_word [0, 0, 0, 0]"
  by (simp add: le_word_4)

section \<open>Signed zeros\<close>

lemma object_bytes_zeros:
  "object_bytes (0 :: 32 word) = [0, 0, 0, 0]"
  "object_bytes (0x80000000 :: 32 word) = [0, 0, 0, 0x80]"
  "object_bytes (0 :: 64 word) = [0, 0, 0, 0, 0, 0, 0, 0]"
  "object_bytes (0x8000000000000000 :: 64 word) = [0, 0, 0, 0, 0, 0, 0, 0x80]"
  by (simp_all add: object_bytes_def upt_rec)

text \<open>
  C2, as stated, fails for the reference-engine-compatible hash: with seed 0 the 32-bit
  \<open>-0.0\<close> hashes to 2576668564 and \<open>+0.0\<close> to 593689054.
\<close>

theorem spark_signed_zero_counterexample:
  "SparkMurmurHash3_32 0 (Float32 0x80000000) = Inr 2576668564 \<and>
   SparkMurmurHash3_32 0 (Float32 0) = Inr 593689054 \<and>
   SparkMurmurHash3_32 0 (Float32 0x80000000) \<noteq> SparkMurmurHash3_32 0 (Float32 0)"
  by (simp add: Spark_compute_floating_point32_def isnan32_def Spark_compute_def
      object_bytes_zeros hash_eval)

text \<open>
  C2, amended.  For the generic hash, for every seed and both floating-point widths,
  hashing \<open>+0.0\<close> and hashing \<open>-0.0\<close> return the same value, the hash of \<open>+0.0\<close>.  The
  reference-engine-compatible hash canonicalises NaN only: it hashes \<open>+0.0\<close> and \<open>-0.0\<close>
  from their own bit patterns, and the two hash values differ for every seed.
\<close>

theorem signed_zero_hashes:
  "MurmurHash3_32 seed (Float32 0x80000000) = MurmurHash3_32 seed (Float32 0) \<and>
   MurmurHash3_32 seed (Float64 0x8000000000000000) = MurmurHash3_32 seed (Float64 0) \<and>
   MurmurHash3_32 seed (Float32 0x80000000) = Inr (Murmur_compute seed (0 :: 32 word)) \<and>
   MurmurHash3_32 seed (Float64 0x8000000000000000) = Inr (Murmur_compute seed (0 :: 64 word)) \<and>
   SparkMurmurHash3_32 seed (Float32 0) = Inr (Spark_compute_bytes seed [0, 0, 0, 0]) \<and>
   SparkMurmurHash3_32 seed (Float32 0x80000000) =
     Inr (Spark_compute_bytes seed [0, 0, 0, 0x80]) \<and>
   SparkMurmurHash3_32 seed (Float64 0) =
     Inr (Spark_compute_bytes seed [0, 0, 0, 0, 0, 0, 0, 0]) \<and>
   SparkMurmurHash3_32 seed (Float64 0x8000000000000000) =
     Inr (Spark_compute_bytes seed [0, 0, 0, 0, 0, 0, 0, 0x80]) \<and>
   SparkMurmurHash3_32 seed (Float32 0x80000000) \<noteq> SparkMurmurHash3_32 seed (Float32 0) \<and>
   SparkMurmurHash3_32 seed (Float64 0x8000000000000000) \<noteq>
     SparkMurmurHash3_32 seed (Float64 0)"
proof -
  have 1: "Spark_compute_bytes seed [0, 0, 0, 0x80] \<noteq> Spark_compute_bytes seed [0, 0, 0, 0]"
    unfolding Spark_hash_one_block
    using Spark_last_block_inj le_word_zero_blocks by blast
  have 2: "Spark_compute_bytes seed [0, 0, 0, 0, 0, 0, 0, 0x80] \<noteq>
      Spark_compute_bytes seed [0, 0, 0, 0, 0, 0, 0, 0]"
    unfolding Spark_hash_two_blocks
    using Spark_last_block_inj le_word_zero_blocks by blast
  show ?thesis
    using 1 2
    by (simp add: Murmur_compute_floating_point32_def Murmur_compute_floating_point64_def
        eq_zero32_def eq_zero64_def Spark_compute_floating_point32_def
        Spark_compute_floating_point64_def isnan32_def isnan64_def Spark_compute_def
        object_bytes_zeros)
qed

section \<open>Equal canonical bytes, equal hashes\<close>

lemma MurmurHash3_32_canonical:
  "MurmurHash3_32 seed k =
     (case canonical_bytes k of None \<Rightarrow> Inl Unsupported_Key_Type
      | Some bs \<Rightarrow> Inr (Murmur_compute_bytes seed bs))"
  by (cases k)
    (auto simp: Murmur_compute_def cudf_assert_def Murmur_compute_floating_point32_def
      Murmur_compute_floating_point64_def normalize_nans_and_zeros32_def
      normalize_nans_and_zeros64_def isnan32_not_zero isnan64_not_zero)

lemma object_bytes_ff:
  "object_bytes (0xFF :: 8 word) = [0xFF]"
  "object_bytes (0xFFFFFFFF :: 32 word) = [0xFF, 0xFF, 0xFF, 0xFF]"
  "object_bytes (0xFF :: 32 word) = [0xFF, 0, 0, 0]"
  by (simp_all add: object_bytes_def upt_rec)

lemma casts_ff:
  "(scast (0xFF :: 8 word) :: 32 word) = 0xFFFFFFFF"
  "(ucast (0xFF :: 8 word) :: 32 word) = 0xFF"
  by simp_all

lemma spark_hash_ff:
  "SparkMurmurHash3_32 0 (Int8 0xFF) = Inr (Spark_compute_bytes 0 [0xFF, 0xFF, 0xFF, 0xFF])"
  "SparkMurmurHash3_32 0 (UInt8 0xFF) = Inr (Spark_compute_bytes 0 [0xFF, 0, 0, 0])"
  by (simp_all only: SparkMurmurHash3_32.simps Spark_compute_def casts_ff object_bytes_ff)

lemma spark_bytes_ff:
  "Spark_compute_bytes 0 [0xFF, 0xFF, 0xFF, 0xFF] = 1982413648"
  "Spark_compute_bytes 0 [0xFF, 0, 0, 0] = 3962596441"
  by (simp_all add: hash_eval)

text \<open>
  C9, as stated for every hash, fails: the signed and the unsigned 8-bit key with the bit
  pattern \<open>0xFF\<close> have the same canonical byte, and with seed 0 the
  reference-engine-compatible hash, which promotes them to \<open>-1\<close> and \<open>255\<close>, gives
  1982413648 and 3962596441.
\<close>

theorem spark_same_bytes_counterexample:
  "canonical_bytes (Int8 0xFF) = canonical_bytes (UInt8 0xFF) \<and>
   SparkMurmurHash3_32 0 (Int8 0xFF) = Inr 1982413648 \<and>
   SparkMurmurHash3_32 0 (UInt8 0xFF) = Inr 3962596441 \<and>
   SparkMurmurHash3_32 0 (Int8 0xFF) \<noteq> SparkMurmurHash3_32 0 (UInt8 0xFF)"
  unfolding spark_hash_ff spark_bytes_ff by simp

text \<open>
  C9, amended.  For every seed and every two keys whose canonical byte representations are
  byte-identical, the generic hash values are equal; in particular, under the generic
  hash, the 32-bit integer 1065353216 and the 32-bit float 1.0 (bit pattern
  \<open>0x3F800000\<close>, which canonicalisation leaves unchanged) have the same hash.
\<close>

theorem same_canonical_bytes_same_hash:
  "(canonical_bytes k1 = canonical_bytes k2 \<longrightarrow>
      MurmurHash3_32 seed k1 = MurmurHash3_32 seed k2) \<and>
   normalize_nans_and_zeros32 0x3F800000 = 0x3F800000 \<and>
   canonical_bytes (Int32 1065353216) = canonical_bytes (Float32 0x3F800000) \<and>
   MurmurHash3_32 seed (Int32 1065353216) = MurmurHash3_32 seed (Float32 0x3F800000)"
  by (simp add: MurmurHash3_32_canonical normalize_nans_and_zeros32_def isnan32_def
      eq_zero32_def)

theorem same_canonical_bytes_same_hash_witness:
  "canonical_bytes (Int32 1065353216) = canonical_bytes (Float32 0x3F800000) \<and>
   MurmurHash3_32 0 (Int32 1065353216) = MurmurHash3_32 0 (Float32 0x3F800000)"
  using same_canonical_bytes_same_hash [of "Int32 1065353216" "Float32 0x3F800000" 0]
  by (simp add: normalize_nans_and_zeros32_def isnan32_def eq_zero32_def)

section \<open>The identity hash\<close>

lemma floor_fp_magnitude:
  assumes "m < 2 ^ mbits" "0 < bias"
  shows "\<lfloor>fp_magnitude mbits bias e m\<rfloor> = int (fp_trunc_magnitude mbits bias e m)"
proof -
  consider "e = 0" | "0 < e" "bias + mbits \<le> e" | "0 < e" "e < bias + mbits"
    by linarith
  then show ?thesis
  proof cases
    case 1
    have "real m < 2 ^ mbits"
      using assms(1) by (metis of_nat_less_iff of_nat_numeral of_nat_power)
    also have "(2 :: real) ^ mbits \<le> 2 ^ (bias + mbits - 1)"
      using assms(2) by (intro power_increasing) simp_all
    finally have "real m / 2 ^ (bias + mbits - 1) < 1"
      by simp
    moreover have "0 \<le> real m / 2 ^ (bias + mbits - 1)"
      by simp
    ultimately have "\<lfloor>real m / 2 ^ (bias + mbits - 1)\<rfloor> = 0"
      by linarith
    with 1 show ?thesis
      by (simp add: fp_magnitude_def fp_trunc_magnitude_def)
  next
    case 2
    define K where "K = (2 ^ mbits + m) * 2 ^ (e - (bias + mbits))"
    have "(2 :: real) ^ e = 2 ^ (e - (bias + mbits)) * 2 ^ (bias + mbits)"
      using 2 by (simp add: power_add [symmetric])
    then have "(2 ^ mbits + real m) * 2 ^ e / 2 ^ (bias + mbits) = real K"
      by (simp add: K_def)
    then have "fp_magnitude mbits bias e m = real K"
      using 2 by (simp add: fp_magnitude_def)
    moreover have "fp_trunc_magnitude mbits bias e m = K"
      using 2 by (simp add: fp_trunc_magnitude_def K_def)
    ultimately show ?thesis
      by (simp only: floor_of_nat)
  next
    case 3
    define A where "A = 2 ^ mbits + m"
    define B :: nat where "B = 2 ^ (bias + mbits - e)"
    have "(2 :: real) ^ (bias + mbits) = 2 ^ (bias + mbits - e) * 2 ^ e"
      using 3 by (simp add: power_add [symmetric])
    then have "(2 ^ mbits + real m) * 2 ^ e / 2 ^ (bias + mbits) = real A / real B"
      by (simp add: A_def B_def)
    then have "fp_magnitude mbits bias e m = real A / real B"
      using 3 by (simp add: fp_magnitude_def)
    moreover have "fp_trunc_magnitude mbits bias e m = A div B"
      using 3 by (simp add: fp_trunc_magnitude_def A_def B_def)
    ultimately show ?thesis
      by (simp only: floor_divide_of_nat_eq)
  qed
qed

lemma fp_magnitude_nonneg: "0 \<le> fp_magnitude mbits bias e m"
  by (simp add: fp_magnitude_def)

lemma fp_to_uint32_truncates:
  fixes neg :: bool and mbits bias e m :: nat
  assumes "m < 2 ^ mbits" "0 < bias" "fp_magnitude mbits bias e m < 2 ^ 63"
  shows "fp_to_uint32 True neg (fp_trunc_magnitude mbits bias e m) =
     word_of_int ((if neg then - 1 else 1) * \<lfloor>fp_magnitude mbits bias e m\<rfloor>)"
proof -
  define M where "M = fp_magnitude mbits bias e m"
  define N where "N = fp_trunc_magnitude mbits bias e m"
  have fl: "\<lfloor>M\<rfloor> = int N"
    unfolding M_def N_def using assms(1,2) by (rule floor_fp_magnitude)
  have "\<lfloor>M\<rfloor> < 2 ^ 63"
    using assms(3) floor_less_iff [of M "2 ^ 63"] by (simp add: M_def)
  then have "int N < int (2 ^ 63)"
    using fl by simp
  then have "N < 2 ^ 63"
    by (simp only: of_nat_less_iff)
  then have "\<not> 2 ^ 63 \<le> N"
    by (simp only: not_le)
  then have "fp_to_uint32 True neg N = (if neg then - of_nat N else of_nat N)"
    by (simp only: fp_to_uint32_def not_True_eq_False simp_thms if_False)
  also have "\<dots> = word_of_int ((if neg then - 1 else 1) * \<lfloor>M\<rfloor>)"
    by (simp add: fl)
  finally show ?thesis
    by (simp only: M_def N_def)
qed

lemma unat_and_mask_less: "unat (w AND mask n) < 2 ^ n" for w :: "'a::len word"
proof -
  have "unat (w AND mask n) = take_bit n (unat w)"
    by (simp only: take_bit_eq_mask [symmetric] unsigned_take_bit_eq)
  then show ?thesis
    by (simp only: take_bit_nat_less_exp)
qed

lemma mantissa32: "unat (w AND 0x7FFFFF) < 2 ^ 23" for w :: "32 word"
proof -
  have "(0x7FFFFF :: 32 word) = mask 23"
    by (simp add: mask_eq_exp_minus_1)
  then show ?thesis
    by (simp only: unat_and_mask_less)
qed

lemma mantissa64: "unat (w AND 0xFFFFFFFFFFFFF) < 2 ^ 52" for w :: "64 word"
proof -
  have "(0xFFFFFFFFFFFFF :: 64 word) = mask 52"
    by (simp add: mask_eq_exp_minus_1)
  then show ?thesis
    by (simp only: unat_and_mask_less)
qed

lemma abs_signed_nonneg: "0 \<le> M \<Longrightarrow> \<bar>(if neg then - 1 else 1) * M\<bar> = M" for M :: real
  by simp

lemma IdentityHash_float_truncates:
  assumes "unat (drop_bit 23 f32 AND 0xFF) \<noteq> 255" "\<bar>float_value f32\<bar> < 2 ^ 63"
  shows "IdentityHash seed (Float32 f32) =
     Inr (word_of_int ((if bit f32 31 then - 1 else 1) * \<lfloor>\<bar>float_value f32\<bar>\<rfloor>))"
proof -
  let ?M = "fp_magnitude 23 127 (unat (drop_bit 23 f32 AND 0xFF)) (unat (f32 AND 0x7FFFFF))"
  have a: "\<bar>float_value f32\<bar> = ?M"
    unfolding float_value_def by (rule abs_signed_nonneg) (rule fp_magnitude_nonneg)
  have "?M < 2 ^ 63"
    using assms(2) by (simp only: a)
  from fp_to_uint32_truncates [OF mantissa32 _ this, of "bit f32 31"] assms(1)
  show ?thesis
    by (simp add: float_to_uint32_def a Let_def)
qed

lemma IdentityHash_double_truncates:
  assumes "unat (drop_bit 52 f64 AND 0x7FF) \<noteq> 2047" "\<bar>double_value f64\<bar> < 2 ^ 63"
  shows "IdentityHash seed (Float64 f64) =
     Inr (word_of_int ((if bit f64 63 then - 1 else 1) * \<lfloor>\<bar>double_value f64\<bar>\<rfloor>))"
proof -
  let ?M = "fp_magnitude 52 1023 (unat (drop_bit 52 f64 AND 0x7FF))
    (unat (f64 AND 0xFFFFFFFFFFFFF))"
  have a: "\<bar>double_value f64\<bar> = ?M"
    unfolding double_value_def by (rule abs_signed_nonneg) (rule fp_magnitude_nonneg)
  have "?M < 2 ^ 63"
    using assms(2) by (simp only: a)
  from fp_to_uint32_truncates [OF mantissa64 _ this, of "bit f64 63"] assms(1)
  show ?thesis
    by (simp add: double_to_uint32_def a Let_def)
qed

lemma scast_down_64_32: "(scast (w :: 64 word) :: 32 word) = ucast w"
  by (rule bit_word_eqI) (auto simp: bit_simps min_def)

text \<open>On boolean and integer keys the conversion keeps the bit pattern: that of a 32-bit
  key, sign- or zero-extended from a narrower key, the low half of a 64-bit key.\<close>

lemma IdentityHash_integer_keys:
  "IdentityHash seed (Bool b) = Inr (of_bool b) \<and>
   IdentityHash seed (Int8 i8) = Inr (word_of_int (sint i8)) \<and>
   IdentityHash seed (UInt8 u8) = Inr (word_of_int (uint u8)) \<and>
   IdentityHash seed (Int16 i16) = Inr (word_of_int (sint i16)) \<and>
   IdentityHash seed (UInt16 u16) = Inr (word_of_int (uint u16)) \<and>
   IdentityHash seed (Int32 i32) = Inr i32 \<and>
   IdentityHash seed (UInt32 u32) = Inr u32 \<and>
   IdentityHash seed (Int64 i64) = Inr (word_of_int (sint i64)) \<and>
   IdentityHash seed (UInt64 u64) = Inr (word_of_int (uint u64)) \<and>
   IdentityHash seed (Int64 i64) = Inr (ucast i64)"
  by (simp add: scast_eq [symmetric] ucast_eq [symmetric] scast_down_64_32)

lemma float_to_uint32_samples:
  "float_to_uint32 0x3F800000 = 1"
  "float_to_uint32 0x40490FDB = 3"
  "float_to_uint32 0xBF800000 = 4294967295"
  "float_to_uint32 0x7FC00000 = 0"
  "float_to_uint32 0x4F800000 = 0"
  by (simp_all add: float_to_uint32_def fp_to_uint32_def fp_trunc_magnitude_def)

text \<open>
  C3.  For every arithmetic key the identity hash is to return the key's own bit pattern
  reinterpreted as a 32-bit value, as the docstring of the functor says too.  The code
  departs from that on floating-point keys: the float 1.0 has the bit pattern
  \<open>0x3F800000\<close>, that is 1065353216, and for every seed the \<open>static_cast\<close> returns 1.
\<close>

theorem IdentityHash_at_float_one:
  "IdentityHash seed (Float32 0x3F800000) = Inr 1 \<and>
   IdentityHash seed (Float32 0x3F800000) \<noteq> Inr 0x3F800000"
  by (simp add: float_to_uint32_samples)

section \<open>The decimal encoder\<close>

lemma find_if_not_map: "find_if_not P (map f xs) = find_if_not (P \<circ> f) xs"
  by (induction xs) auto

lemma object_bytes_128_length: "length (object_bytes (v :: 128 word)) = 16"
  by (simp add: object_bytes_def)

lemma object_bytes_128_nth:
  "i < 16 \<Longrightarrow> object_bytes (v :: 128 word) ! i = ucast (drop_bit (8 * i) v)"
  by (simp add: object_bytes_def)

lemma byte_of_NOT:
  "i < 16 \<Longrightarrow> (ucast (drop_bit (8 * i) (NOT (v :: 128 word))) :: byte) = NOT (ucast (drop_bit (8 * i) v))"
  by (rule bit_word_eqI) (auto simp: bit_simps)

lemma object_bytes_NOT: "object_bytes (NOT (v :: 128 word)) = map (\<lambda>b. NOT b) (object_bytes v)"
  by (simp add: object_bytes_def byte_of_NOT)

lemma byte_eq_ff: "(b :: byte) = 0xff \<longleftrightarrow> NOT b = 0"
proof
  assume "b = 0xff" then show "NOT b = 0" by simp
next
  assume "NOT b = 0"
  then have "NOT (NOT b) = NOT 0" by simp
  then show "b = 0xff" by simp
qed

lemma unat_byte:
  "unat (ucast (drop_bit (8 * i) (w :: 128 word)) :: byte) = unat w div 256 ^ i mod 256"
proof -
  have "unat (ucast (drop_bit (8 * i) w) :: byte) = take_bit 8 (drop_bit (8 * i) (unat w))"
    by (simp add: unsigned_ucast_eq unat_drop_bit_eq)
  also have "\<dots> = unat w div 256 ^ i mod 256"
    by (simp add: take_bit_eq_mod drop_bit_eq_div power_mult)
  finally show ?thesis .
qed

text \<open>Skipping the leading zero bytes of the lowest n bytes leaves the significant ones.\<close>

lemma leading_zero_bytes:
  fixes w :: "128 word"
  assumes "unat w < 256 ^ n"
  defines "k \<equiv> find_if_not (\<lambda>b. b = 0) (rev (map (\<lambda>i. ucast (drop_bit (8 * i) w) :: byte) [0..<n]))"
  shows "k \<le> n \<and> unat w < 256 ^ (n - k) \<and> (k < n \<longrightarrow> 256 ^ (n - k - 1) \<le> unat w)"
  using assms(1) unfolding k_def
proof (induction n)
  case 0
  then show ?case by simp
next
  case (Suc n)
  let ?b = "ucast (drop_bit (8 * n) w) :: byte"
  have q: "unat w div 256 ^ n < 256"
    using Suc.prems by (simp add: less_mult_imp_div_less mult.commute)
  show ?case
  proof (cases "?b = 0")
    case True
    then have "unat ?b = 0" by simp
    then have "unat w div 256 ^ n = 0"
      using q by (simp add: unat_byte)
    then have "unat w < 256 ^ n"
      by (simp add: div_eq_0_iff)
    from Suc.IH [OF this] True show ?thesis
      by auto
  next
    case False
    then have "unat ?b \<noteq> 0"
      by (simp add: unat_eq_0)
    then have "unat w div 256 ^ n \<noteq> 0"
      by (auto simp: unat_byte)
    then have "256 ^ n \<le> unat w"
      by (simp add: div_eq_0_iff)
    with False Suc.prems show ?thesis
      by simp
  qed
qed

lemma sint_NOT: "sint (NOT w) = - sint w - 1" for w :: "'a::len word"
proof -
  have "sint (NOT w) = NOT (sint w)"
    by (rule bit_eqI) (auto simp: bit_simps min_less_iff_disj)
  then show ?thesis
    by (simp add: not_int_def)
qed

lemma uint_eq_sint_nonneg: "0 \<le> sint w \<Longrightarrow> uint w = sint w" for w :: "'a::len word"
  using sint_lt [of w]
  by (simp add: uint_sint take_bit_int_eq_self order_less_le_trans)

lemma uint_fill_cleared: "uint (fill_cleared v) = (if sint v < 0 then - sint v - 1 else sint v)"
proof (cases "sint v < 0")
  case True
  then have "0 \<le> sint (NOT v)" by (simp add: sint_NOT)
  then have "uint (NOT v) = sint (NOT v)" by (rule uint_eq_sint_nonneg)
  with True show ?thesis by (simp add: fill_cleared_def sint_NOT)
next
  case False
  then have "uint v = sint v" by (intro uint_eq_sint_nonneg) simp
  with False show ?thesis by (simp add: fill_cleared_def)
qed

lemma unat_less_power_of_uint: "uint w < 2 ^ n \<Longrightarrow> unat w < 2 ^ n" for w :: "'a::len word"
  unfolding unat_eq_nat_uint
  by (subst nat_less_iff, rule uint_ge_0, simp only: of_nat_power of_nat_numeral)

lemma unat_fill_cleared_less: "unat (fill_cleared v) < 2 ^ (8 * 16 - 1)"
proof -
  have "uint (fill_cleared v) < 2 ^ 127"
    using sint_lt [of v] sint_ge [of v] by (simp add: uint_fill_cleared)
  then have "unat (fill_cleared v) < 2 ^ 127"
    by (rule unat_less_power_of_uint)
  moreover have "8 * 16 - 1 = (127 :: nat)"
    by simp
  ultimately show ?thesis
    by (simp only:)
qed

lemma byte_bit7: "(b :: byte) AND 0x80 \<noteq> 0 \<longleftrightarrow> bit b 7"
  using and_exp_eq_0_iff_not_bit [of b 7] by simp

lemma sign_check:
  assumes "1 \<le> j" "j \<le> 16"
  shows "((sint v < 0) \<noteq> (object_bytes v ! (j - 1) AND 0x80 \<noteq> 0)) \<longleftrightarrow> bit (fill_cleared v) (8 * j - 1)"
proof -
  have j: "j - 1 < 16" "8 * (j - 1) + 7 = 8 * j - 1" "8 * j - 1 < 128"
    using assms by simp_all
  have "bit (object_bytes v ! (j - 1)) 7 = bit v (8 * j - 1)"
    using j by (simp add: object_bytes_128_nth bit_simps add.commute)
  moreover have "(sint v < 0) = bit v 127"
    using bit_last_iff [of v] by simp
  ultimately show ?thesis
    using j by (auto simp: fill_cleared_def byte_bit7 bit_simps)
qed

lemma top_bit_nat:
  assumes "u < 2 ^ Suc n"
  shows "bit (u :: nat) n \<longleftrightarrow> 2 ^ n \<le> u"
proof -
  have "u div 2 ^ n < 2"
    using assms by (simp add: less_mult_imp_div_less)
  then have "odd (u div 2 ^ n) \<longleftrightarrow> u div 2 ^ n \<noteq> 0"
    by (cases "u div 2 ^ n = 0") (auto simp: less_2_cases_iff)
  then show ?thesis
    by (simp add: bit_nat_def div_eq_0_iff not_less)
qed

lemma pow256: "(256 :: nat) ^ n = 2 ^ (8 * n)"
  by (simp add: power_mult)

lemma pow2_mono: "a \<le> b \<Longrightarrow> (2 :: nat) ^ a \<le> 2 ^ b"
  by simp

lemma find_if_not_fill:
  "find_if_not (\<lambda>b. b = (if sint v < 0 then 0xff else 0x00 :: byte)) (rev (object_bytes v)) =
   find_if_not (\<lambda>b. b = 0) (rev (object_bytes (fill_cleared v)))"
proof (cases "sint v < 0")
  case True
  have "find_if_not (\<lambda>b. b = 0) (rev (object_bytes (NOT v))) =
        find_if_not ((\<lambda>b. b = 0) \<circ> (\<lambda>b. NOT b)) (rev (object_bytes v))"
    by (simp only: object_bytes_NOT rev_map find_if_not_map)
  also have "(\<lambda>b. b = 0) \<circ> (\<lambda>b. NOT b) = (\<lambda>b :: byte. b = 0xff)"
    by (simp add: fun_eq_iff byte_eq_ff)
  finally show ?thesis
    using True by (simp add: fill_cleared_def)
next
  case False
  then show ?thesis by (simp add: fill_cleared_def)
qed

lemma leading_zero_bytes_16:
  fixes v :: "128 word"
  defines "k \<equiv> find_if_not (\<lambda>b. b = 0) (rev (object_bytes (fill_cleared v)))"
  shows "k \<le> 16" and "unat (fill_cleared v) < 2 ^ (8 * (16 - k))"
    and "k < 16 \<Longrightarrow> 2 ^ (8 * (16 - k - 1)) \<le> unat (fill_cleared v)"
proof -
  have "unat (fill_cleared v) < 2 ^ (8 * 16)"
    using unat_fill_cleared_less [of v] pow2_mono [of "8 * 16 - 1" "8 * 16"]
    by (meson diff_le_self order_less_le_trans)
  then have "unat (fill_cleared v) < 256 ^ 16"
    by (simp only: pow256)
  from leading_zero_bytes [OF this]
  have *: "k \<le> 16 \<and> unat (fill_cleared v) < 256 ^ (16 - k) \<and> (k < 16 \<longrightarrow> 256 ^ (16 - k - 1) \<le> unat (fill_cleared v))"
    by (simp add: k_def object_bytes_def)
  show "k \<le> 16" using * by simp
  show "unat (fill_cleared v) < 2 ^ (8 * (16 - k))" using * by (simp only: pow256)
  show "k < 16 \<Longrightarrow> 2 ^ (8 * (16 - k - 1)) \<le> unat (fill_cleared v)" using * by (simp only: pow256)
qed

lemma span_eq: "Spark_decimal128_span v = rev (take (retained_length v) (object_bytes v))"
  by (simp add: Spark_decimal128_span_def retained_length_def Let_def)

lemma top_bit_w:
  assumes "1 \<le> j" and "unat (w :: 128 word) < 2 ^ (8 * j)"
  shows "bit w (8 * j - 1) \<longleftrightarrow> 2 ^ (8 * j - 1) \<le> unat w"
proof -
  have "Suc (8 * j - 1) = 8 * j" using assms(1) by simp
  then have "unat w < 2 ^ Suc (8 * j - 1)" using assms(2) by (simp only:)
  then have "bit (unat w) (8 * j - 1) \<longleftrightarrow> 2 ^ (8 * j - 1) \<le> unat w"
    by (rule top_bit_nat)
  then show ?thesis
    by (simp add: bit_unsigned_iff)
qed

lemma retained_length_props:
  shows "1 \<le> retained_length v" and "retained_length v \<le> 16"
    and "unat (fill_cleared v) < 2 ^ (8 * retained_length v - 1)"
    and "1 < retained_length v \<Longrightarrow> 2 ^ (8 * (retained_length v - 1) - 1) \<le> unat (fill_cleared v)"
proof -
  define k where "k = find_if_not (\<lambda>b. b = 0) (rev (object_bytes (fill_cleared v)))"
  define m where "m = max 1 (16 - k)"
  define u where "u = unat (fill_cleared v)"
  have k16: "k \<le> 16" and ub: "u < 2 ^ (8 * (16 - k))"
    and lb: "k < 16 \<Longrightarrow> 2 ^ (8 * (16 - k - 1)) \<le> u"
    unfolding k_def u_def by (rule leading_zero_bytes_16)+
  have m1: "1 \<le> m" "m \<le> 16" by (simp_all add: m_def)
  have "8 * (16 - k) \<le> 8 * m"
    by (simp add: m_def)
  then have "(2 :: nat) ^ (8 * (16 - k)) \<le> 2 ^ (8 * m)"
    by (rule pow2_mono)
  with ub have um: "u < 2 ^ (8 * m)"
    by (rule order_less_le_trans)
  have lm: "2 ^ (8 * (m - 1)) \<le> u" if "1 < m"
  proof -
    from that have "k < 16" "m - 1 = 16 - k - 1" by (simp_all add: m_def)
    with lb show ?thesis by simp
  qed
  have u127: "u < 2 ^ (8 * 16 - 1)"
    unfolding u_def by (rule unat_fill_cleared_less)
  have chk: "((sint v < 0) \<noteq> (object_bytes v ! (m - 1) AND 0x80 \<noteq> 0)) \<longleftrightarrow> 2 ^ (8 * m - 1) \<le> u"
    using sign_check [OF m1, of v] top_bit_w [OF m1(1), of "fill_cleared v"] um
    by (simp add: u_def)
  have sl: "retained_length v = (if m < 16 \<and> 2 ^ (8 * m - 1) \<le> u then m + 1 else m)"
    unfolding retained_length_def Let_def find_if_not_fill k_def [symmetric] m_def [symmetric] chk
    by (rule refl)
  show "1 \<le> retained_length v" using m1 by (simp add: sl)
  show "retained_length v \<le> 16" using m1 by (simp add: sl)
  show "u < 2 ^ (8 * retained_length v - 1)"
  proof (cases "m < 16 \<and> 2 ^ (8 * m - 1) \<le> u")
    case True
    have "(2 :: nat) ^ (8 * m) \<le> 2 ^ (8 * (m + 1) - 1)"
      by (rule pow2_mono) simp
    moreover from True have "retained_length v = m + 1" by (simp add: sl)
    ultimately show ?thesis using um by (simp only:)
  next
    case False
    show ?thesis
    proof (cases "m < 16")
      case True
      with False show ?thesis by (simp add: sl)
    next
      case False
      then have "m = 16" using m1 by simp
      with u127 show ?thesis by (simp add: sl)
    qed
  qed
  show "2 ^ (8 * (retained_length v - 1) - 1) \<le> u" if "1 < retained_length v"
  proof (cases "m < 16 \<and> 2 ^ (8 * m - 1) \<le> u")
    case True
    then show ?thesis by (simp add: sl)
  next
    case False
    then have s: "retained_length v = m" by (simp add: sl)
    with that have "1 < m" by simp
    then have "2 ^ (8 * (m - 1)) \<le> u" by (rule lm)
    moreover have "(2 :: nat) ^ (8 * (m - 1) - 1) \<le> 2 ^ (8 * (m - 1))"
      by (rule pow2_mono) simp
    ultimately show ?thesis unfolding s by linarith
  qed
qed

lemma foldl_be: "foldl (\<lambda>acc b. 256 * acc + uint (b :: byte)) a bs =
    a * 256 ^ length bs + foldl (\<lambda>acc b. 256 * acc + uint b) 0 bs"
proof -
  define f where "f = (\<lambda>acc (b :: byte). 256 * acc + uint b)"
  have "foldl f a bs = a * 256 ^ length bs + foldl f 0 bs"
  proof (induction bs arbitrary: a)
    case Nil
    then show ?case by simp
  next
    case (Cons b bs)
    have "foldl f a (b # bs) = foldl f (256 * a + uint b) bs"
      by (simp add: f_def)
    also have "\<dots> = (256 * a + uint b) * 256 ^ length bs + foldl f 0 bs"
      by (rule Cons.IH)
    finally have 1: "foldl f a (b # bs) = (256 * a + uint b) * 256 ^ length bs + foldl f 0 bs" .
    have "foldl f 0 (b # bs) = foldl f (uint b) bs"
      by (simp add: f_def)
    also have "\<dots> = uint b * 256 ^ length bs + foldl f 0 bs"
      by (rule Cons.IH)
    finally have 2: "foldl f 0 (b # bs) = uint b * 256 ^ length bs + foldl f 0 bs" .
    show ?case
      unfolding 1 2 by (simp add: algebra_simps)
  qed
  then show ?thesis by (simp only: f_def)
qed

lemma be_unsigned_Cons: "be_unsigned (b # bs) = uint b * 256 ^ length bs + be_unsigned bs"
  using foldl_be [of "uint b" bs] by (simp add: be_unsigned_def)

lemma be_unsigned_bounds: "0 \<le> be_unsigned bs \<and> be_unsigned bs < 256 ^ length bs"
proof (induction bs)
  case Nil
  then show ?case by (simp add: be_unsigned_def)
next
  case (Cons b bs)
  define P :: int where "P = 256 ^ length bs"
  have "uint b \<le> 255" using uint_lt2p [of b] by simp
  then have 1: "uint b * P \<le> 255 * P"
    unfolding P_def by (intro mult_right_mono) simp_all
  have 2: "0 \<le> uint b * P" by (simp add: P_def)
  have 3: "0 \<le> be_unsigned bs" "be_unsigned bs < P"
    using Cons.IH by (simp_all add: P_def)
  have 4: "be_unsigned (b # bs) = uint b * P + be_unsigned bs"
    by (simp add: be_unsigned_Cons P_def)
  have 5: "(256 :: int) ^ length (b # bs) = 256 * P"
    by (simp add: P_def)
  show ?case
    unfolding 4 5 using 1 2 3 by linarith
qed

lemma uint_byte:
  "uint (ucast (drop_bit (8 * i) (v :: 128 word)) :: byte) = take_bit 8 (drop_bit (8 * i) (uint v))"
  by (rule bit_eqI) (auto simp: bit_simps)

lemma take_bit_step:
  "take_bit (8 * Suc n) (u :: int) = take_bit 8 (drop_bit (8 * n) u) * 256 ^ n + take_bit (8 * n) u"
proof -
  have "u mod (2 ^ (8 * n) * 2 ^ 8) = 2 ^ (8 * n) * (u div 2 ^ (8 * n) mod 2 ^ 8) + u mod 2 ^ (8 * n)"
    by (rule zmod_zmult2_eq) simp
  moreover have "(2 :: int) ^ (8 * Suc n) = 2 ^ (8 * n) * 2 ^ 8"
    by (simp add: power_add)
  moreover have "(256 :: int) ^ n = 2 ^ (8 * n)"
    by (simp add: power_mult)
  ultimately show ?thesis
    by (simp only: take_bit_eq_mod drop_bit_eq_div mult.commute)
qed

lemma be_unsigned_rev_take:
  "n \<le> 16 \<Longrightarrow> be_unsigned (rev (take n (object_bytes (v :: 128 word)))) = take_bit (8 * n) (uint v)"
proof (induction n)
  case 0
  then show ?case by (simp add: be_unsigned_def)
next
  case (Suc n)
  then have n: "n < 16" by simp
  have "take (Suc n) (object_bytes v) = take n (object_bytes v) @ [object_bytes v ! n]"
    using n by (simp add: take_Suc_conv_app_nth object_bytes_128_length)
  then have "be_unsigned (rev (take (Suc n) (object_bytes v))) =
      uint (object_bytes v ! n) * 256 ^ n + be_unsigned (rev (take n (object_bytes v)))"
    using n by (simp add: be_unsigned_Cons object_bytes_128_length)
  also have "\<dots> = take_bit 8 (drop_bit (8 * n) (uint v)) * 256 ^ n + take_bit (8 * n) (uint v)"
    using n Suc.IH by (simp add: object_bytes_128_nth uint_byte)
  finally show ?case
    by (simp only: take_bit_step)
qed

lemma sign_extend_span:
  assumes "1 \<le> n" "n \<le> 16"
  shows "sign_extend_be (rev (take n (object_bytes (v :: 128 word)))) =
     signed_take_bit (8 * n - 1) (uint v)"
proof -
  let ?bs = "rev (take n (object_bytes v))"
  have "object_bytes v \<noteq> []"
    using object_bytes_128_length [of v] by auto
  then have ne: "take n (object_bytes v) \<noteq> []"
    using assms by simp
  have len: "length (take n (object_bytes v)) = n"
    using assms by (simp add: object_bytes_128_length)
  have "hd ?bs = last (take n (object_bytes v))"
    by (rule hd_rev)
  also have "\<dots> = take n (object_bytes v) ! (length (take n (object_bytes v)) - 1)"
    using ne by (rule last_conv_nth)
  also have "\<dots> = take n (object_bytes v) ! (n - 1)"
    by (simp only: len)
  also have "\<dots> = object_bytes v ! (n - 1)"
    using assms by (intro nth_take) simp
  also have "\<dots> = ucast (drop_bit (8 * (n - 1)) v)"
    using assms by (intro object_bytes_128_nth) simp
  finally have hd: "hd ?bs = ucast (drop_bit (8 * (n - 1)) v)" .
  have e: "8 * (n - 1) + 7 = 8 * n - 1" "8 * n - 1 < 128" "Suc (8 * n - 1) = 8 * n"
    using assms by simp_all
  have b7: "bit (hd ?bs) 7 = bit (uint v) (8 * n - 1)"
    unfolding hd using e by (simp add: bit_simps add.commute)
  have "sign_extend_be ?bs = take_bit (8 * n) (uint v) - 2 ^ (8 * n) * of_bool (bit (uint v) (8 * n - 1))"
    using ne assms by (simp add: sign_extend_be_def b7 be_unsigned_rev_take object_bytes_128_length)
  also have "\<dots> = signed_take_bit (8 * n - 1) (uint v)"
    by (simp only: signed_take_bit_eq_take_bit_minus e)
  finally show ?thesis .
qed

lemma roundtrip:
  assumes "1 \<le> n" "n \<le> 16" "fits n (sint v)"
  shows "sign_extend_be (rev (take n (object_bytes (v :: 128 word)))) = sint v"
proof -
  have m: "min (8 * n - Suc 0) 127 = 8 * n - Suc 0"
    using assms by simp
  have "signed_take_bit (8 * n - 1) (sint v) = signed_take_bit (8 * n - 1) (uint v)"
    by (simp add: sint_uint signed_take_bit_signed_take_bit m)
  moreover have "signed_take_bit (8 * n - 1) (sint v) = sint v"
    using assms(3) by (intro signed_take_bit_int_eq_self) (simp_all add: fits_def)
  ultimately show ?thesis
    by (simp only: sign_extend_span [OF assms(1,2)])
qed

lemma unat_less_iff_uint: "unat w < 2 ^ p \<longleftrightarrow> uint w < 2 ^ p" for w :: "'a::len word"
proof
  assume "uint w < 2 ^ p"
  then show "unat w < 2 ^ p" by (rule unat_less_power_of_uint)
next
  assume "unat w < 2 ^ p"
  then have "int (unat w) < int (2 ^ p)" by (simp only: of_nat_less_iff)
  then show "uint w < 2 ^ p" by (simp only: uint_nat of_nat_power of_nat_numeral)
qed

lemma fits_iff: "fits n (sint v) \<longleftrightarrow> unat (fill_cleared v) < 2 ^ (8 * n - 1)"
  unfolding unat_less_iff_uint uint_fill_cleared fits_def
  by auto

lemma fits_mono: "fits n x \<Longrightarrow> n \<le> n' \<Longrightarrow> fits n' x"
proof -
  assume f: "fits n x" and "n \<le> n'"
  then have "(2 :: int) ^ (8 * n - 1) \<le> 2 ^ (8 * n' - 1)"
    by (intro power_increasing) simp_all
  with f show ?thesis
    unfolding fits_def by linarith
qed

lemma byte_top_bit: "bit (b :: byte) 7 \<longleftrightarrow> 128 \<le> uint b"
proof -
  have o: "odd (k div 128) \<longleftrightarrow> 128 \<le> k" if "0 \<le> k" "k < 256" for k :: int
    using that by presburger
  have "uint b < 256"
    using uint_lt2p [of b] by simp
  then have "odd (uint b div 128) \<longleftrightarrow> 128 \<le> uint b"
    by (intro o) simp_all
  moreover have "bit b 7 = bit (uint b) 7"
    by (simp add: bit_uint_iff)
  ultimately show ?thesis
    by (simp add: bit_iff_odd)
qed

lemma sign_extend_fits:
  assumes "bs \<noteq> []"
  shows "fits (length bs) (sign_extend_be bs)"
proof -
  obtain b bs' where bs: "bs = b # bs'"
    using assms by (cases bs) auto
  define P :: int where "P = 256 ^ length bs'"
  have P: "(2 :: int) ^ (8 * length bs - 1) = 128 * P" "(2 :: int) ^ (8 * length bs) = 256 * P"
    by (simp_all add: bs P_def power_add power_mult)
  have v: "be_unsigned bs = uint b * P + be_unsigned bs'"
    by (simp add: bs be_unsigned_Cons P_def)
  have r: "0 \<le> be_unsigned bs'" "be_unsigned bs' < P"
    using be_unsigned_bounds [of bs'] by (simp_all add: P_def)
  have P0: "0 \<le> P" by (simp add: P_def)
  show ?thesis
  proof (cases "bit b 7")
    case True
    then have "128 \<le> uint b" by (simp add: byte_top_bit)
    then have 1: "128 * P \<le> uint b * P"
      using P0 by (intro mult_right_mono)
    have "uint b \<le> 255" using uint_lt2p [of b] by simp
    then have 2: "uint b * P \<le> 255 * P"
      using P0 by (intro mult_right_mono)
    have "sign_extend_be bs = be_unsigned bs - 2 ^ (8 * length bs)"
      using True by (simp add: sign_extend_be_def bs)
    then show ?thesis
      unfolding fits_def P v using 1 2 r by linarith
  next
    case False
    then have "uint b \<le> 127" by (simp add: byte_top_bit)
    then have 1: "uint b * P \<le> 127 * P"
      using P0 by (intro mult_right_mono)
    have 2: "0 \<le> uint b * P" using P0 by simp
    have "sign_extend_be bs = be_unsigned bs"
      using False by (simp add: sign_extend_be_def bs)
    then show ?thesis
      unfolding fits_def P v using 1 2 r by linarith
  qed
qed

lemma sign_extend_negative_iff:
  assumes "bs \<noteq> []"
  shows "sign_extend_be bs < 0 \<longleftrightarrow> bit (hd bs) 7"
proof (cases "bit (hd bs) 7")
  case True
  have "be_unsigned bs < 256 ^ length bs"
    using be_unsigned_bounds [of bs] by simp
  moreover have "(256 :: int) ^ length bs = 2 ^ (8 * length bs)"
    by (simp add: power_mult)
  ultimately show ?thesis
    using True assms by (simp add: sign_extend_be_def)
next
  case False
  then show ?thesis
    using be_unsigned_bounds [of bs] by (simp add: sign_extend_be_def)
qed

lemma minus_one_128: "(- 1 :: 128 word) = 0xFFFFFFFFFFFFFFFFFFFFFFFFFFFFFFFF"
  by simp

lemma span_cases:
  "Spark_decimal128_span 0 = [0x00]"
  "Spark_decimal128_span 0xFFFFFFFFFFFFFFFFFFFFFFFFFFFFFFFF = [0xff]"
  "Spark_decimal128_span 127 = [0x7f]"
  "Spark_decimal128_span 128 = [0x00, 0x80]"
  by (simp_all add: Spark_decimal128_span_def object_bytes_def upt_rec)

lemma span_minus_one: "Spark_decimal128_span (- 1) = [0xff]"
  unfolding minus_one_128 by (rule span_cases)

text \<open>
  C4.  For every 128-bit two's-complement input the decimal encoder produces the minimal
  big-endian byte span that sign-extends back to exactly the input: the span is not empty,
  its two's-complement value is the input, no shorter span has that value, and the top
  bit of its first byte is the sign of the input.  In particular 0 encodes as \<open>00\<close>,
  -1 as \<open>ff\<close>, 127 as \<open>7f\<close> and 128 as \<open>00 80\<close>.
\<close>

theorem decimal128_span_minimal_round_trip:
  "sign_extend_be (Spark_decimal128_span v) = sint v \<and>
   Spark_decimal128_span v \<noteq> [] \<and>
   (\<forall>bs. bs \<noteq> [] \<and> sign_extend_be bs = sint v \<longrightarrow>
      length (Spark_decimal128_span v) \<le> length bs) \<and>
   (bit (hd (Spark_decimal128_span v)) 7 \<longleftrightarrow> sint v < 0) \<and>
   Spark_decimal128_span 0 = [0x00] \<and>
   Spark_decimal128_span (- 1) = [0xff] \<and>
   Spark_decimal128_span 127 = [0x7f] \<and>
   Spark_decimal128_span 128 = [0x00, 0x80]"
proof -
  let ?L = "retained_length v"
  have L: "1 \<le> ?L" "?L \<le> 16"
    by (rule retained_length_props)+
  have f: "fits ?L (sint v)"
    unfolding fits_iff by (rule retained_length_props)
  have rt: "sign_extend_be (Spark_decimal128_span v) = sint v"
    unfolding span_eq using L f by (rule roundtrip)
  have len: "length (Spark_decimal128_span v) = ?L"
    using L by (simp add: span_eq object_bytes_128_length)
  have ne: "Spark_decimal128_span v \<noteq> []"
    using len L by auto
  have mn: "?L \<le> length bs" if "bs \<noteq> []" "sign_extend_be bs = sint v" for bs
  proof (rule ccontr)
    assume "\<not> ?L \<le> length bs"
    moreover have "0 < length bs"
      using that(1) by simp
    ultimately have lt: "length bs \<le> ?L - 1" "1 < ?L"
      by linarith+
    have "fits (length bs) (sint v)"
      using sign_extend_fits [OF that(1)] that(2) by simp
    then have "fits (?L - 1) (sint v)"
      using lt(1) by (rule fits_mono)
    then have "unat (fill_cleared v) < 2 ^ (8 * (?L - 1) - 1)"
      by (simp only: fits_iff)
    moreover have "2 ^ (8 * (?L - 1) - 1) \<le> unat (fill_cleared v)"
      using lt(2) by (rule retained_length_props)
    ultimately show False by linarith
  qed
  have sg: "bit (hd (Spark_decimal128_span v)) 7 \<longleftrightarrow> sint v < 0"
    using sign_extend_negative_iff [OF ne] rt by simp
  show ?thesis
    using rt ne mn sg by (simp add: len span_cases span_minus_one)
qed

theorem decimal128_span_minimal_round_trip_witness:
  "[0x00, 0x00, 0x80 :: byte] \<noteq> [] \<and> sign_extend_be [0x00, 0x00, 0x80] = sint (128 :: 128 word) \<and>
   length (Spark_decimal128_span 128) \<le> length [0x00, 0x00, 0x80 :: byte]"
  using decimal128_span_minimal_round_trip [of 128]
  by (simp add: sign_extend_be_def be_unsigned_def)

end
